theory Spec2Isabelle
  imports Main "HOL-Library.Sublist" "HOL-Library.AList" "HOL-Library.Multiset"
begin

section \<open>Text primitives\<close>

text \<open>
  A Python \<open>str\<close> is modelled as a \<^typ>\<open>string\<close>, one \<^typ>\<open>char\<close> per character, a
  \<^typ>\<open>char\<close> being a code point below 256. Whitespace, digits, word characters, cased
  characters and \<open>str.lower()\<close> are those of Python for these code points. \<open>str.upper()\<close>
  is that of Python except on U+00B5, U+00DF and U+00FF, whose upper-case forms are not
  code points below 256: they are left as they are. Text with a code point from 256 on
  is not covered.

  An exception is its class and its text, \<open>str(e)\<close>.
\<close>

datatype py_error =
    OSError string
  | UnicodeDecodeError string
  | UnicodeEncodeError string
  | ValueError string

definition ascii_upper :: string where
  "ascii_upper = ''ABCDEFGHIJKLMNOPQRSTUVWXYZ''"

definition ascii_lower :: string where
  "ascii_lower = ''abcdefghijklmnopqrstuvwxyz''"

definition ascii_digits :: string where
  "ascii_digits = ''0123456789''"

text \<open>The letters U+00C0..U+00DE (without the multiplication sign U+00D7) and their
  lower-case forms U+00E0..U+00FE (without the division sign U+00F7).\<close>

definition latin1_upper :: string where
  "latin1_upper =
     [CHR 0xC0, CHR 0xC1, CHR 0xC2, CHR 0xC3, CHR 0xC4, CHR 0xC5, CHR 0xC6, CHR 0xC7,
      CHR 0xC8, CHR 0xC9, CHR 0xCA, CHR 0xCB, CHR 0xCC, CHR 0xCD, CHR 0xCE, CHR 0xCF,
      CHR 0xD0, CHR 0xD1, CHR 0xD2, CHR 0xD3, CHR 0xD4, CHR 0xD5, CHR 0xD6, CHR 0xD8,
      CHR 0xD9, CHR 0xDA, CHR 0xDB, CHR 0xDC, CHR 0xDD, CHR 0xDE]"

definition latin1_lower :: string where
  "latin1_lower =
     [CHR 0xE0, CHR 0xE1, CHR 0xE2, CHR 0xE3, CHR 0xE4, CHR 0xE5, CHR 0xE6, CHR 0xE7,
      CHR 0xE8, CHR 0xE9, CHR 0xEA, CHR 0xEB, CHR 0xEC, CHR 0xED, CHR 0xEE, CHR 0xEF,
      CHR 0xF0, CHR 0xF1, CHR 0xF2, CHR 0xF3, CHR 0xF4, CHR 0xF5, CHR 0xF6, CHR 0xF8,
      CHR 0xF9, CHR 0xFA, CHR 0xFB, CHR 0xFC, CHR 0xFD, CHR 0xFE]"

definition upper_letters :: string where
  "upper_letters = ascii_upper @ latin1_upper"

definition lower_letters :: string where
  "lower_letters = ascii_lower @ latin1_lower"

text \<open>\<open>str.lower()\<close> and \<open>str.upper()\<close>, character by character.\<close>

definition lower_char :: "char \<Rightarrow> char" where
  "lower_char c = (case map_of (zip upper_letters lower_letters) c of Some d \<Rightarrow> d | None \<Rightarrow> c)"

definition upper_char :: "char \<Rightarrow> char" where
  "upper_char c = (case map_of (zip lower_letters upper_letters) c of Some d \<Rightarrow> d | None \<Rightarrow> c)"

definition lower :: "string \<Rightarrow> string" where
  "lower s = map lower_char s"

definition upper :: "string \<Rightarrow> string" where
  "upper s = map upper_char s"

text \<open>\<open>str.isspace()\<close>, which is also the class \<open>\s\<close> of \<open>re\<close>: tab, newline, vertical
  tab, form feed, carriage return, the four separators 0x1C..0x1F, the space, the next
  line control U+0085 and the no-break space U+00A0.\<close>

definition is_space :: "char \<Rightarrow> bool" where
  "is_space c = (c \<in> set [CHR 0x09, CHR 0x0A, CHR 0x0B, CHR 0x0C, CHR 0x0D,
                            CHR 0x1C, CHR 0x1D, CHR 0x1E, CHR 0x1F, CHR 0x20,
                            CHR 0x85, CHR 0xA0])"

text \<open>The classes \<open>\d\<close> and \<open>\w\<close> of \<open>re\<close>, and the cased characters, which \<open>str.title()\<close>
  looks at. The cased characters without a case pair below 256 are the two ordinal
  indicators, the micro sign, the sharp s and the y with diaeresis; the word characters
  that are neither cased nor ASCII digits are the superscripts 2, 3 and 1 and the three
  fractions.\<close>

definition is_digit :: "char \<Rightarrow> bool" where
  "is_digit c = (c \<in> set ascii_digits)"

definition is_cased :: "char \<Rightarrow> bool" where
  "is_cased c = (c \<in> set upper_letters \<or> c \<in> set lower_letters \<or>
                 c \<in> set [CHR 0xAA, CHR 0xB5, CHR 0xBA, CHR 0xDF, CHR 0xFF])"

definition is_word :: "char \<Rightarrow> bool" where
  "is_word c = (is_cased c \<or> is_digit c \<or> c = CHR ''_'' \<or>
                c \<in> set [CHR 0xB2, CHR 0xB3, CHR 0xB9, CHR 0xBC, CHR 0xBD, CHR 0xBE])"

text \<open>\<open>s.startswith(p)\<close> and \<open>sub in s\<close>.\<close>

definition startswith :: "string \<Rightarrow> string \<Rightarrow> bool" where
  "startswith s p = prefix p s"

fun contains :: "string \<Rightarrow> string \<Rightarrow> bool" where
  "contains [] sub = (sub = [])"
| "contains (c # cs) sub = (prefix sub (c # cs) \<or> contains cs sub)"

text \<open>\<open>s.strip()\<close>: whitespace removed at both ends.\<close>

definition strip :: "string \<Rightarrow> string" where
  "strip s = rev (dropWhile is_space (rev (dropWhile is_space s)))"

text \<open>\<open>s.replace(old, new)\<close> for a one-character \<open>old\<close>.\<close>

definition replace_char :: "char \<Rightarrow> string \<Rightarrow> string \<Rightarrow> string" where
  "replace_char old new s = concat (map (\<lambda>c. if c = old then new else [c]) s)"

text \<open>The first occurrence of a separator: the text before it and the text after it.\<close>

fun find_sep :: "string \<Rightarrow> string \<Rightarrow> (string \<times> string) option" where
  "find_sep sep [] = None"
| "find_sep sep (c # cs) =
     (if prefix sep (c # cs) then Some ([], drop (length sep) (c # cs))
      else (case find_sep sep cs of
              None \<Rightarrow> None
            | Some (before, after) \<Rightarrow> Some (c # before, after)))"

text \<open>\<open>s.split(sep, maxsplit)\<close> for a non-empty separator, and \<open>s.split(sep)\<close>: a split
  consumes at least one character, so \<open>length s\<close> splits are as good as no limit.\<close>

fun split_max :: "string \<Rightarrow> nat \<Rightarrow> string \<Rightarrow> string list" where
  "split_max sep 0 s = [s]"
| "split_max sep (Suc n) s =
     (case find_sep sep s of
        None \<Rightarrow> [s]
      | Some (before, after) \<Rightarrow> before # split_max sep n after)"

definition py_split :: "string \<Rightarrow> string \<Rightarrow> string list" where
  "py_split sep s = split_max sep (length s) s"

section \<open>Frontmatter splitter\<close>

text \<open>
  The dictionary is an association list in insertion order: an assignment to a key that
  is present replaces its value in place (\<^const>\<open>AList.update\<close>), as a Python dict does.
  The loop over the lines of the middle part; the unpacking \<open>key, value = line.split(":", 1)\<close>
  raises \<open>ValueError\<close> unless the split has two parts (with \<open>maxsplit = 1\<close> it has one
  or two).
\<close>

type_synonym dict = "(string \<times> string) list"

fun frontmatter_lines :: "string list \<Rightarrow> dict \<Rightarrow> py_error + dict" where
  "frontmatter_lines [] frontmatter = Inr frontmatter"
| "frontmatter_lines (line # rest) frontmatter =
     (if contains line '':'' then
        (case split_max '':'' 1 line of
           [key, val] \<Rightarrow> frontmatter_lines rest (AList.update (strip key) (strip val) frontmatter)
         | _ \<Rightarrow> Inl (ValueError ''not enough values to unpack (expected 2, got 1)''))
      else frontmatter_lines rest frontmatter)"

definition parse_frontmatter :: "string \<Rightarrow> py_error + (dict \<times> string)" where
  "parse_frontmatter content =
     (if \<not> startswith content ''---'' then Inr ([], content)
      else
        (let parts = split_max ''---'' 2 content in
         if length parts < 3 then Inr ([], content)
         else
           (case frontmatter_lines (py_split ''\<newline>'' (strip (parts ! 1))) [] of
              Inl e \<Rightarrow> Inl e
            | Inr frontmatter \<Rightarrow> Inr (frontmatter, parts ! 2))))"

section \<open>Document classifier\<close>

definition determine_doc_type :: "string \<Rightarrow> string" where
  "determine_doc_type path =
     (let path_lower = lower path in
      if contains path_lower ''overview'' \<or> contains path ''00-'' then ''overview''
      else if contains path_lower ''architecture'' \<or> contains path ''01-'' then ''architecture''
      else if contains path_lower ''decision'' \<or> contains path ''02-'' then ''decision''
      else if contains path_lower ''implementation'' \<or> contains path ''04-'' then ''implementation''
      else if contains path_lower ''operations'' \<or> contains path ''05-'' then ''operations''
      else if contains path_lower ''plan'' \<or> contains path ''06-'' then ''plan''
      else ''other'')"

section \<open>Markdown feature extractor\<close>

subsection \<open>Title and headings\<close>

text \<open>
  The patterns \<open>^#\s+(.+)$\<close> and \<open>^#{1,3}\s+(.+)$\<close> under \<open>re.MULTILINE\<close>. Each matcher
  returns the group and the number of characters it matched. \<open>(.+)$\<close> is the rest of the
  line, at least one character; \<open>\s*\<close> is greedy and gives characters back one at a
  time when what follows fails (\<open>\s\<close> matches a newline, so the heading text may stand on
  a later line).
\<close>

definition rest_of_line :: "string \<Rightarrow> (string \<times> nat) option" where
  "rest_of_line s =
     (let g = takeWhile (\<lambda>c. c \<noteq> CHR ''\<newline>'') s
      in if g = [] then None else Some (g, length g))"

fun ws_star_line :: "string \<Rightarrow> (string \<times> nat) option" where
  "ws_star_line [] = None"
| "ws_star_line (c # cs) =
     (if is_space c then
        (case ws_star_line cs of
           Some (g, n) \<Rightarrow> Some (g, Suc n)
         | None \<Rightarrow> rest_of_line (c # cs))
      else rest_of_line (c # cs))"

fun ws_plus_line :: "string \<Rightarrow> (string \<times> nat) option" where
  "ws_plus_line [] = None"
| "ws_plus_line (c # cs) =
     (if is_space c then
        (case ws_star_line cs of Some (g, n) \<Rightarrow> Some (g, Suc n) | None \<Rightarrow> None)
      else None)"

text \<open>\<open>re.search\<close>: the leftmost start of a line where the pattern matches.\<close>

fun search_h1 :: "bool \<Rightarrow> string \<Rightarrow> string option" where
  "search_h1 bol [] = None"
| "search_h1 bol (c # cs) =
     (case (if bol \<and> c = CHR ''#'' then ws_plus_line cs else None) of
        Some (g, n) \<Rightarrow> Some g
      | None \<Rightarrow> search_h1 (c = CHR ''\<newline>'') cs)"

text \<open>\<open>#{1,3}\<close> followed by whitespace: the run of hashes has one to three characters.\<close>

definition heading_at :: "string \<Rightarrow> (string \<times> nat) option" where
  "heading_at s =
     (let n = length (takeWhile (\<lambda>c. c = CHR ''#'') s)
      in if 1 \<le> n \<and> n \<le> 3 then
           (case ws_plus_line (drop n s) of Some (g, k) \<Rightarrow> Some (g, n + k) | None \<Rightarrow> None)
         else None)"

text \<open>\<open>re.findall\<close>: after a match the scan resumes where the match ended.\<close>

fun headings_from :: "bool \<Rightarrow> string \<Rightarrow> string list" where
  "headings_from bol [] = []"
| "headings_from bol (c # cs) =
     (case (if bol then heading_at (c # cs) else None) of
        Some (g, n) \<Rightarrow> g # headings_from False (drop (n - 1) cs)
      | None \<Rightarrow> headings_from (c = CHR ''\<newline>'') cs)"

definition extract_headings :: "string \<Rightarrow> string list" where
  "extract_headings content = headings_from True content"

text \<open>\<open>Path(path).stem\<close> for the relative path string of a file, and \<open>str.title()\<close>:
  the first cased character of a run is put in upper case (the title-case form of U+00DF
  is two characters and is not modelled), the others in lower case.\<close>

definition path_name :: "string \<Rightarrow> string" where
  "path_name path = last (py_split ''/'' path)"

definition stem_of :: "string \<Rightarrow> string" where
  "stem_of name =
     (let suffix_len = length (takeWhile (\<lambda>c. c \<noteq> CHR ''.'') (rev name));
          i = length name - suffix_len - 1
      in if CHR ''.'' \<in> set name \<and> 0 < i \<and> i < length name - 1 then take i name else name)"

fun title_from :: "bool \<Rightarrow> string \<Rightarrow> string" where
  "title_from previous_is_cased [] = []"
| "title_from previous_is_cased (c # cs) =
     (if previous_is_cased then lower_char c else upper_char c) # title_from (is_cased c) cs"

definition title_case :: "string \<Rightarrow> string" where
  "title_case s = title_from False s"

definition extract_title :: "string \<Rightarrow> string \<Rightarrow> string" where
  "extract_title content path =
     (case search_h1 True content of
        Some g \<Rightarrow> strip g
      | None \<Rightarrow> title_case (replace_char CHR ''-'' '' '' (stem_of (path_name path))))"

subsection \<open>References\<close>

text \<open>
  The pattern \<open>\[.+?\]\(([^)]+\.md)\)\<close>. \<open>link_target\<close> is \<open>\]\(([^)]+\.md)\)\<close>: the target
  is the run of characters up to the first closing parenthesis, ends in \<open>.md\<close> and has
  at least one character before it. \<open>lazy_label\<close> is the lazy \<open>.+?\<close> after its first
  character: the label grows one character at a time, never over a newline, until the
  target matches.
\<close>

definition link_target :: "string \<Rightarrow> (string \<times> nat) option" where
  "link_target s =
     (case s of
        c1 # c2 # r \<Rightarrow>
          if c1 = CHR '']'' \<and> c2 = CHR ''(''
          then (let t = takeWhile (\<lambda>c. c \<noteq> CHR '')'') r
                in if length t < length r \<and> 4 \<le> length t \<and> suffix ''.md'' t
                   then Some (t, length t + 3) else None)
          else None
      | _ \<Rightarrow> None)"

fun lazy_label :: "string \<Rightarrow> (string \<times> nat) option" where
  "lazy_label [] = None"
| "lazy_label (c # cs) =
     (case link_target (c # cs) of
        Some (t, n) \<Rightarrow> Some (t, n)
      | None \<Rightarrow>
          if c = CHR ''\<newline>'' then None
          else (case lazy_label cs of Some (t, n) \<Rightarrow> Some (t, Suc n) | None \<Rightarrow> None))"

definition link_at :: "string \<Rightarrow> (string \<times> nat) option" where
  "link_at s =
     (case s of
        c # d # r \<Rightarrow>
          if c = CHR ''['' \<and> d \<noteq> CHR ''\<newline>''
          then (case lazy_label r of Some (t, n) \<Rightarrow> Some (t, n + 2) | None \<Rightarrow> None)
          else None
      | _ \<Rightarrow> None)"

fun links_from :: "string \<Rightarrow> string list" where
  "links_from [] = []"
| "links_from (c # cs) =
     (case link_at (c # cs) of
        Some (t, n) \<Rightarrow> t # links_from (drop (n - 1) cs)
      | None \<Rightarrow> links_from cs)"

definition extract_references :: "string \<Rightarrow> string list" where
  "extract_references content =
     filter (\<lambda>ref_path. \<not> startswith ref_path ''http'') (links_from content)"

subsection \<open>Components\<close>

text \<open>
  A pattern \<open>\b(A|B|...)\b\<close> under \<open>re.IGNORECASE\<close> is the list of its alternatives. \<open>\b\<close>
  holds between two characters of which exactly one is a word character (the ends of the
  text count as non-word). The alternatives are tried in order; one matches when the text
  equals it up to letter case and a word boundary follows.
\<close>

definition patterns :: "string list list" where
  "patterns =
     [[''TokenScreener'', ''Screener''],
      [''RiskEngine'', ''Risk Engine''],
      [''ExitEngine'', ''Exit Engine''],
      [''TradeExecutor'', ''Trade Executor'', ''Executor''],
      [''Keystore'', ''Key Store''],
      [''WebhookHandler'', ''Webhook Handler''],
      [''CopyTradeWorker'', ''Copy Trade Worker''],
      [''ExitCheckWorker'', ''Exit Check Worker''],
      [''PriceUpdateWorker'', ''Price Update Worker''],
      [''Jupiter'', ''Helius'', ''Birdeye'']]"

definition word_boundary :: "char option \<Rightarrow> string \<Rightarrow> bool" where
  "word_boundary prev s =
     ((case prev of None \<Rightarrow> False | Some p \<Rightarrow> is_word p) \<noteq>
      (case s of [] \<Rightarrow> False | c # _ \<Rightarrow> is_word c))"

definition alt_at :: "string \<Rightarrow> string \<Rightarrow> string option" where
  "alt_at alt s =
     (let m = take (length alt) s
      in if m \<noteq> [] \<and> lower m = lower alt \<and> word_boundary (Some (last m)) (drop (length alt) s)
         then Some m else None)"

fun first_alt :: "string list \<Rightarrow> string \<Rightarrow> string option" where
  "first_alt [] s = None"
| "first_alt (alt # alts) s =
     (case alt_at alt s of Some m \<Rightarrow> Some m | None \<Rightarrow> first_alt alts s)"

text \<open>\<open>re.finditer\<close>: the matched texts, left to right, without overlap.\<close>

fun matches_from :: "string list \<Rightarrow> char option \<Rightarrow> string \<Rightarrow> string list" where
  "matches_from alts prev [] = []"
| "matches_from alts prev (c # cs) =
     (case (if word_boundary prev (c # cs) then first_alt alts (c # cs) else None) of
        Some m \<Rightarrow> m # matches_from alts (Some (last m)) (drop (length m - 1) cs)
      | None \<Rightarrow> matches_from alts (Some c) cs)"

text \<open>A Python set is a list without duplicates, in insertion order; \<open>list(s)\<close> enumerates
  it in an order Python does not specify, and the model takes the insertion order.\<close>

definition set_add :: "'a \<Rightarrow> 'a list \<Rightarrow> 'a list" where
  "set_add x xs = (if x \<in> set xs then xs else xs @ [x])"

definition normalize_name :: "string \<Rightarrow> string" where
  "normalize_name m = replace_char CHR '' '' [] m"

definition component_names :: "string \<Rightarrow> string list" where
  "component_names content =
     concat (map (\<lambda>pattern. map normalize_name (matches_from pattern None content)) patterns)"

definition extract_components :: "string \<Rightarrow> string list" where
  "extract_components content = fold set_add (component_names content) []"

subsection \<open>Concepts\<close>

text \<open>The patterns \<open>`([^`]+)`\<close> and \<open>\*\*([^*]+)\*\*\<close>: the group is the whole run of
  characters up to the next delimiter character, it is not empty, and the closing
  delimiter follows it.\<close>

definition backtick_at :: "string \<Rightarrow> string option" where
  "backtick_at s =
     (case s of
        c # r \<Rightarrow>
          if c = CHR 0x60
          then (let t = takeWhile (\<lambda>c. c \<noteq> CHR 0x60) r
                in if t \<noteq> [] \<and> length t < length r then Some t else None)
          else None
      | [] \<Rightarrow> None)"

fun backticks_from :: "string \<Rightarrow> string list" where
  "backticks_from [] = []"
| "backticks_from (c # cs) =
     (case backtick_at (c # cs) of
        Some t \<Rightarrow> t # backticks_from (drop (length t + 1) cs)
      | None \<Rightarrow> backticks_from cs)"

definition bold_at :: "string \<Rightarrow> string option" where
  "bold_at s =
     (case s of
        c1 # c2 # r \<Rightarrow>
          if c1 = CHR ''*'' \<and> c2 = CHR ''*''
          then (let t = takeWhile (\<lambda>c. c \<noteq> CHR ''*'') r
                in if t \<noteq> [] \<and> prefix ''**'' (drop (length t) r) then Some t else None)
          else None
      | _ \<Rightarrow> None)"

fun bolds_from :: "string \<Rightarrow> string list" where
  "bolds_from [] = []"
| "bolds_from (c # cs) =
     (case bold_at (c # cs) of
        Some t \<Rightarrow> t # bolds_from (drop (length t + 3) cs)
      | None \<Rightarrow> bolds_from cs)"

definition backtick_terms :: "string \<Rightarrow> string list" where
  "backtick_terms content =
     filter (\<lambda>t. length t > 2 \<and> length t < 50 \<and> \<not> startswith t ''/'') (backticks_from content)"

definition bold_terms :: "string \<Rightarrow> string list" where
  "bold_terms content =
     filter (\<lambda>t. length t > 2 \<and> length t < 50) (bolds_from content)"

definition concept_set :: "string \<Rightarrow> string list" where
  "concept_set content = fold set_add (backtick_terms content @ bold_terms content) []"

definition extract_concepts :: "string \<Rightarrow> string list" where
  "extract_concepts content = take 20 (concept_set content)"

section \<open>Documents and decisions\<close>

text \<open>
  The dataclasses \<open>Document\<close> and \<open>Decision\<close>; a field \<open>x\<close> of the source is \<open>doc_x\<close> or
  \<open>dec_x\<close> here. A markdown file of the corpus is the list of its path components below
  the docs root (the last one is the file name) and what \<open>read_text(encoding="utf-8")\<close>
  gives for it: the text, or the exception raised. The docs root is the list of the
  components of its resolved absolute path.
\<close>

record Document =
  doc_path :: string
  doc_title :: string
  doc_type :: string
  doc_headings :: "string list"
  doc_content :: string
  doc_frontmatter :: dict
  doc_references :: "string list"
  doc_components :: "string list"
  doc_concepts :: "string list"

record Decision =
  dec_id :: string
  dec_title :: string
  dec_status :: string
  dec_path :: string
  dec_context :: string
  dec_decision :: string
  dec_consequences :: string

record md_file =
  rel_parts :: "string list"
  read_text :: "py_error + string"

fun join_path :: "string list \<Rightarrow> string" where
  "join_path [] = []"
| "join_path [p] = p"
| "join_path (p # q # ps) = p @ ''/'' @ join_path (q # ps)"

text \<open>\<open>str(md_file)\<close>, \<open>str(file_path.relative_to(base_path))\<close>, \<open>md_file.name\<close>,
  \<open>md_file.parent == docs_path\<close> and \<open>md_file.parent.name\<close>.\<close>

definition file_str :: "string list \<Rightarrow> md_file \<Rightarrow> string" where
  "file_str docs_path f = ''/'' @ join_path (docs_path @ rel_parts f)"

definition rel_path_of :: "md_file \<Rightarrow> string" where
  "rel_path_of f = join_path (rel_parts f)"

definition file_name :: "md_file \<Rightarrow> string" where
  "file_name f = last (rel_parts f)"

definition parent_is_root :: "md_file \<Rightarrow> bool" where
  "parent_is_root f = (butlast (rel_parts f) = [])"

definition parent_name :: "string list \<Rightarrow> md_file \<Rightarrow> string" where
  "parent_name docs_path f =
     (let parent = docs_path @ butlast (rel_parts f) in if parent = [] then [] else last parent)"

definition parse_document :: "md_file \<Rightarrow> py_error + Document" where
  "parse_document f =
     (case read_text f of
        Inl e \<Rightarrow> Inl e
      | Inr content \<Rightarrow>
          (let rel_path = rel_path_of f in
           case parse_frontmatter content of
             Inl e \<Rightarrow> Inl e
           | Inr (fm, body) \<Rightarrow>
               Inr \<lparr>doc_path = rel_path,
                    doc_title = extract_title body rel_path,
                    doc_type = determine_doc_type rel_path,
                    doc_headings = extract_headings body,
                    doc_content = take 5000 body,
                    doc_frontmatter = fm,
                    doc_references = extract_references body,
                    doc_components = extract_components body,
                    doc_concepts = extract_concepts body\<rparr>))"

section \<open>Decision parser\<close>

text \<open>
  \<open>re.match(r'^(\d+)-(.+)$', filename)\<close>: the longest run of digits, not empty, a hyphen,
  and at least one character up to the end of the name (\<open>$\<close> also holds before a final
  newline). The result is group 1.
\<close>

definition match_decision_id :: "string \<Rightarrow> string option" where
  "match_decision_id filename =
     (let digits = takeWhile is_digit filename in
      case drop (length digits) filename of
        c # r \<Rightarrow>
          (let g = takeWhile (\<lambda>c. c \<noteq> CHR ''\<newline>'') r; tail = drop (length g) r
           in if digits \<noteq> [] \<and> c = CHR ''-'' \<and> g \<noteq> [] \<and> (tail = [] \<or> tail = ''\<newline>'')
              then Some digits else None)
      | [] \<Rightarrow> None)"

text \<open>\<open>re.search(r'Status:\s*(\w+)', content, re.IGNORECASE)\<close>.\<close>

definition status_at :: "string \<Rightarrow> string option" where
  "status_at s =
     (if lower (take 7 s) = ''status:''
      then (let w = takeWhile is_word (dropWhile is_space (drop 7 s))
            in if w = [] then None else Some w)
      else None)"

fun search_status :: "string \<Rightarrow> string option" where
  "search_status [] = None"
| "search_status (c # cs) =
     (case status_at (c # cs) of Some w \<Rightarrow> Some w | None \<Rightarrow> search_status cs)"

text \<open>
  \<open>re.search(r'## Context\s*\n(.*?)(?=\n##|\Z)', content, re.DOTALL | re.IGNORECASE)\<close>
  and its two siblings. \<open>ws_newline\<close> is \<open>\s*\n\<close>: the greedy \<open>\s*\<close> gives characters
  back until a newline follows, and the result is the text after that newline.
  \<open>until_heading\<close> is the lazy group with its lookahead: the shortest text after which a
  newline and \<open>##\<close> follow, or the text ends. \<open>section_at\<close> matches the heading text, letter
  case ignored, at the start of the text; \<open>search_section\<close> takes the leftmost match.
\<close>

fun ws_newline :: "string \<Rightarrow> string option" where
  "ws_newline [] = None"
| "ws_newline (c # cs) =
     (if is_space c then
        (case ws_newline cs of
           Some r \<Rightarrow> Some r
         | None \<Rightarrow> if c = CHR ''\<newline>'' then Some cs else None)
      else None)"

fun until_heading :: "string \<Rightarrow> string" where
  "until_heading [] = []"
| "until_heading (c # cs) =
     (if prefix ''\<newline>##'' (c # cs) then [] else c # until_heading cs)"

definition section_at :: "string \<Rightarrow> string \<Rightarrow> string option" where
  "section_at heading s =
     (if lower (take (length heading) s) = lower heading
      then (case ws_newline (drop (length heading) s) of
              Some r \<Rightarrow> Some (until_heading r)
            | None \<Rightarrow> None)
      else None)"

fun search_section :: "string \<Rightarrow> string \<Rightarrow> string option" where
  "search_section heading [] = None"
| "search_section heading (c # cs) =
     (case section_at heading (c # cs) of
        Some g \<Rightarrow> Some g
      | None \<Rightarrow> search_section heading cs)"

definition section_field :: "string \<Rightarrow> string \<Rightarrow> string" where
  "section_field heading content =
     (case search_section heading content of
        Some g \<Rightarrow> take 2000 (strip g)
      | None \<Rightarrow> [])"

definition parse_decision :: "md_file \<Rightarrow> py_error + Decision option" where
  "parse_decision f =
     (case read_text f of
        Inl e \<Rightarrow> Inl e
      | Inr content \<Rightarrow>
          (let rel_path = rel_path_of f;
               filename = stem_of (file_name f)
           in case match_decision_id filename of
                None \<Rightarrow> Inr None
              | Some decision_id \<Rightarrow>
                  Inr (Some
                    \<lparr>dec_id = decision_id,
                     dec_title = (case search_h1 True content of Some g \<Rightarrow> g | None \<Rightarrow> filename),
                     dec_status = (case search_status content of Some w \<Rightarrow> lower w
                                   | None \<Rightarrow> ''accepted''),
                     dec_path = rel_path,
                     dec_context = section_field ''## Context'' content,
                     dec_decision = section_field ''## Decision'' content,
                     dec_consequences = section_field ''## Consequences'' content\<rparr>)))"

section \<open>Corpus scanner\<close>

text \<open>
  The loop of \<open>main\<close> over the markdown files. \<open>try_file\<close> is the body of the \<open>try\<close>
  block: it returns the lists as the statements it ran left them, and the exception that
  ended it, if one did. \<open>scan_file\<close> adds the \<open>except Exception\<close> clause, which prints the
  warning with the path of the file and the text of the exception. The \<open>print\<close> of the
  handler stands outside every \<open>try\<close>: when writing the line to the standard output
  raises, the exception leaves the loop. The standard output is what writing a line to
  it raises, if anything (\<open>None\<close> when the line is written); of what \<open>main\<close> prints only
  the warnings are kept. \<open>scan\<close> is the loop, and it stops with the exception of an
  iteration that lets one out.
\<close>

record scan_state =
  docs :: "Document list"
  decisions :: "Decision list"
  printed :: "string list"

type_synonym stdout = "string \<Rightarrow> py_error option"

definition error_text :: "py_error \<Rightarrow> string" where
  "error_text e =
     (case e of OSError msg \<Rightarrow> msg | UnicodeDecodeError msg \<Rightarrow> msg
      | UnicodeEncodeError msg \<Rightarrow> msg | ValueError msg \<Rightarrow> msg)"

definition is_decision_candidate :: "string list \<Rightarrow> md_file \<Rightarrow> bool" where
  "is_decision_candidate docs_path f =
     (contains (lower (parent_name docs_path f)) ''decision'' \<or>
      contains (file_str docs_path f) ''02-'')"

definition try_file :: "string list \<Rightarrow> scan_state \<Rightarrow> md_file \<Rightarrow> scan_state \<times> py_error option" where
  "try_file docs_path st f =
     (if upper (file_name f) = ''README.MD'' \<and> parent_is_root f then (st, None)
      else
        (case parse_document f of
           Inl e \<Rightarrow> (st, Some e)
         | Inr doc \<Rightarrow>
             (let st1 = st\<lparr>docs := docs st @ [doc]\<rparr> in
              if is_decision_candidate docs_path f then
                (case parse_decision f of
                   Inl e \<Rightarrow> (st1, Some e)
                 | Inr None \<Rightarrow> (st1, None)
                 | Inr (Some dec) \<Rightarrow> (st1\<lparr>decisions := decisions st1 @ [dec]\<rparr>, None))
              else (st1, None))))"

definition warning :: "string list \<Rightarrow> md_file \<Rightarrow> py_error \<Rightarrow> string" where
  "warning docs_path f e = ''  Warning: Failed to parse '' @ file_str docs_path f @ '': '' @ error_text e"

definition scan_file :: "stdout \<Rightarrow> string list \<Rightarrow> scan_state \<Rightarrow> md_file \<Rightarrow> py_error + scan_state" where
  "scan_file out docs_path st f =
     (case try_file docs_path st f of
        (st', None) \<Rightarrow> Inr st'
      | (st', Some e) \<Rightarrow>
          (case out (warning docs_path f e) of
             Some raised \<Rightarrow> Inl raised
           | None \<Rightarrow> Inr (st'\<lparr>printed := printed st' @ [warning docs_path f e]\<rparr>)))"

fun scan_from :: "stdout \<Rightarrow> string list \<Rightarrow> scan_state \<Rightarrow> md_file list \<Rightarrow> py_error + scan_state" where
  "scan_from out docs_path st [] = Inr st"
| "scan_from out docs_path st (f # fs) =
     (case scan_file out docs_path st f of
        Inl e \<Rightarrow> Inl e
      | Inr st' \<Rightarrow> scan_from out docs_path st' fs)"

definition scan :: "stdout \<Rightarrow> string list \<Rightarrow> md_file list \<Rightarrow> py_error + scan_state" where
  "scan out docs_path md_files =
     scan_from out docs_path \<lparr>docs = [], decisions = [], printed = []\<rparr> md_files"

section \<open>Graph writer\<close>

text \<open>
  The graph store behind the driver is a property graph: nodes with an identity, labels
  and properties, directed typed relationships, and the next free identity. The Cypher
  statements of \<open>create_graph\<close> are given their meaning on it: \<open>MATCH\<close> binds every node
  that has the labels and the property values of the pattern, \<open>CREATE\<close> adds a node,
  \<open>MERGE\<close> of a node binds the matches or creates the node when there is none, \<open>MERGE\<close>
  of a relationship adds it unless one of that type already joins the two nodes in that
  direction, and \<open>DETACH DELETE\<close> removes the bound nodes with every relationship that
  touches them. The project name is spliced into the statements as a label. Every
  statement is taken to run to its end: failures of the connection are not part of the
  model.
\<close>

datatype pval = Str string | StrList "string list"

record node =
  node_id :: nat
  labels :: "string list"
  props :: "(string \<times> pval) list"

type_synonym edge = "nat \<times> string \<times> nat"

record graph =
  nodes :: "node list"
  edges :: "edge list"
  next_id :: nat

definition node_matches :: "string list \<Rightarrow> (string \<times> pval) list \<Rightarrow> node \<Rightarrow> bool" where
  "node_matches ls ps n =
     (list_all (\<lambda>l. l \<in> set (labels n)) ls \<and>
      list_all (\<lambda>(k, v). map_of (props n) k = Some v) ps)"

definition match_nodes :: "string list \<Rightarrow> (string \<times> pval) list \<Rightarrow> graph \<Rightarrow> nat list" where
  "match_nodes ls ps g = map node_id (filter (node_matches ls ps) (nodes g))"

definition create_node :: "string list \<Rightarrow> (string \<times> pval) list \<Rightarrow> graph \<Rightarrow> graph" where
  "create_node ls ps g =
     g\<lparr>nodes := nodes g @ [\<lparr>node_id = next_id g, labels = ls, props = ps\<rparr>],
       next_id := Suc (next_id g)\<rparr>"

definition merge_node :: "string list \<Rightarrow> (string \<times> pval) list \<Rightarrow> graph \<Rightarrow> nat list \<times> graph" where
  "merge_node ls ps g =
     (case match_nodes ls ps g of
        [] \<Rightarrow> ([next_id g], create_node ls ps g)
      | m # ms \<Rightarrow> (m # ms, g))"

definition merge_edge :: "edge \<Rightarrow> graph \<Rightarrow> graph" where
  "merge_edge e g = (if e \<in> set (edges g) then g else g\<lparr>edges := edges g @ [e]\<rparr>)"

definition detach_delete :: "string list \<Rightarrow> graph \<Rightarrow> graph" where
  "detach_delete ls g =
     (let dead = match_nodes ls [] g in
      g\<lparr>nodes := filter (\<lambda>n. node_id n \<notin> set dead) (nodes g),
        edges := filter (\<lambda>(a, t, b). a \<notin> set dead \<and> b \<notin> set dead) (edges g)\<rparr>)"

text \<open>The statements of \<open>create_graph\<close>, in the order of the source.\<close>

definition clear_query :: "string \<Rightarrow> graph \<Rightarrow> graph" where
  "clear_query project g = detach_delete [project] g"

definition document_query :: "string \<Rightarrow> Document \<Rightarrow> graph \<Rightarrow> graph" where
  "document_query project doc g =
     create_node [project, ''Document'']
       [(''path'', Str (doc_path doc)),
        (''title'', Str (doc_title doc)),
        (''type'', Str (doc_type doc)),
        (''headings'', StrList (doc_headings doc)),
        (''content'', Str (take 2000 (doc_content doc)))] g"

text \<open>\<open>MERGE (c:P:Kind {name: $name}) WITH c MATCH (d:P:Document {path: $path})
  MERGE (d)-[:REL]->(c)\<close>, for the components and for the concepts.\<close>

definition link_query :: "string \<Rightarrow> string \<Rightarrow> string \<Rightarrow> string \<Rightarrow> string \<Rightarrow> graph \<Rightarrow> graph" where
  "link_query project kind rel name path g =
     (let (cs, g1) = merge_node [project, kind] [(''name'', Str name)] g;
          ds = match_nodes [project, ''Document''] [(''path'', Str path)] g1
      in fold merge_edge (concat (map (\<lambda>c. map (\<lambda>d. (d, rel, c)) ds) cs)) g1)"

definition decision_query :: "string \<Rightarrow> Decision \<Rightarrow> graph \<Rightarrow> graph" where
  "decision_query project dec g =
     create_node [project, ''Decision'']
       [(''id'', Str (dec_id dec)),
        (''title'', Str (dec_title dec)),
        (''status'', Str (dec_status dec)),
        (''path'', Str (dec_path dec)),
        (''context'', Str (dec_context dec)),
        (''decision'', Str (dec_decision dec)),
        (''consequences'', Str (dec_consequences dec))] g"

text \<open>\<open>MATCH (d1:P:Document {path: $from_path}) MATCH (d2:P:Document {path: $to_path})
  MERGE (d1)-[:REFERENCES]->(d2)\<close>.\<close>

definition reference_query :: "string \<Rightarrow> string \<Rightarrow> string \<Rightarrow> graph \<Rightarrow> graph" where
  "reference_query project from_path to_path g =
     (let d1s = match_nodes [project, ''Document''] [(''path'', Str from_path)] g;
          d2s = match_nodes [project, ''Document''] [(''path'', Str to_path)] g
      in fold merge_edge (concat (map (\<lambda>d1. map (\<lambda>d2. (d1, ''REFERENCES'', d2)) d2s) d1s)) g)"

definition write_document :: "string \<Rightarrow> Document \<Rightarrow> graph \<Rightarrow> graph" where
  "write_document project doc g =
     (let g1 = document_query project doc g;
          g2 = fold (\<lambda>comp. link_query project ''Component'' ''DESCRIBES'' comp (doc_path doc))
                 (doc_components doc) g1
      in fold (\<lambda>concept. link_query project ''Concept'' ''MENTIONS'' concept (doc_path doc))
           (take 10 (doc_concepts doc)) g2)"

definition write_references :: "string \<Rightarrow> Document \<Rightarrow> graph \<Rightarrow> graph" where
  "write_references project doc g =
     fold (\<lambda>ref. reference_query project (doc_path doc) ref) (doc_references doc) g"

definition create_graph :: "graph \<Rightarrow> string \<Rightarrow> Document list \<Rightarrow> Decision list \<Rightarrow> graph" where
  "create_graph driver project ds decs =
     (let g1 = clear_query project driver;
          g2 = fold (write_document project) ds g1;
          g3 = fold (decision_query project) decs g2
      in fold (write_references project) ds g3)"

text \<open>The summary statement reads the graph: the label lists of the project's nodes, each
  with the number of nodes that carry it.\<close>

definition summary :: "string \<Rightarrow> graph \<Rightarrow> (string list \<times> nat) list" where
  "summary project g =
     (let ls = map labels (filter (node_matches [project] []) (nodes g))
      in map (\<lambda>l. (l, count_list ls l)) (remdups ls))"

text \<open>A graph of the store is well formed: the identities of its nodes are below the next
  free one, and so are the ends of its relationships.\<close>

definition wf_graph :: "graph \<Rightarrow> bool" where
  "wf_graph g =
     (list_all (\<lambda>n. node_id n < next_id g) (nodes g) \<and>
      list_all (\<lambda>(a, t, b). a < next_id g \<and> b < next_id g) (edges g))"

section \<open>Notions used to state the claims\<close>

subsection \<open>Frontmatter entries\<close>







subsection \<open>The classifier as a priority table\<close>

text \<open>A rule is a keyword, a numeric marker and the tag of the rule; the first rule that
  matches gives the tag, and \<open>other\<close> is the default. Two characters are the same letter
  when they are equal or an upper-case letter and its lower-case form; a keyword occurs in
  a path, letter case ignored, when a stretch of the path has its length and the same
  letters, place by place. A marker starts a segment when a component of the path (the
  texts between the slashes) begins with it.\<close>

definition doc_type_rules :: "(string \<times> string \<times> string) list" where
  "doc_type_rules =
     [(''overview'', ''00-'', ''overview''),
      (''architecture'', ''01-'', ''architecture''),
      (''decision'', ''02-'', ''decision''),
      (''implementation'', ''04-'', ''implementation''),
      (''operations'', ''05-'', ''operations''),
      (''plan'', ''06-'', ''plan'')]"

definition doc_type_tags :: "string list" where
  "doc_type_tags = [''overview'', ''architecture'', ''decision'', ''implementation'',
                    ''operations'', ''plan'', ''other'']"

definition same_letter :: "char \<Rightarrow> char \<Rightarrow> bool" where
  "same_letter a b =
     (a = b \<or> (a, b) \<in> set (zip upper_letters lower_letters) \<or>
      (b, a) \<in> set (zip upper_letters lower_letters))"

definition prefix_ci :: "string \<Rightarrow> string \<Rightarrow> bool" where
  "prefix_ci keyword s =
     (length keyword \<le> length s \<and> list_all2 same_letter (take (length keyword) s) keyword)"

fun contains_ci :: "string \<Rightarrow> string \<Rightarrow> bool" where
  "contains_ci [] keyword = (keyword = [])"
| "contains_ci (c # cs) keyword = (prefix_ci keyword (c # cs) \<or> contains_ci cs keyword)"

definition starts_segment :: "string \<Rightarrow> string \<Rightarrow> bool" where
  "starts_segment marker path = list_ex (prefix marker) (py_split ''/'' path)"

text \<open>The checks as the specification lists them (the keyword occurs, letter case
  ignored, or the marker starts a segment), and the checks with the marker looked for
  anywhere in the path.\<close>

definition listed_rule_matches :: "string \<Rightarrow> string \<times> string \<times> string \<Rightarrow> bool" where
  "listed_rule_matches path r =
     (contains_ci path (fst r) \<or> starts_segment (fst (snd r)) path)"

definition rule_matches :: "string \<Rightarrow> string \<times> string \<times> string \<Rightarrow> bool" where
  "rule_matches path r = (contains_ci path (fst r) \<or> sublist (fst (snd r)) path)"

definition first_match ::
  "(string \<Rightarrow> string \<times> string \<times> string \<Rightarrow> bool) \<Rightarrow> (string \<times> string \<times> string) list \<Rightarrow> string \<Rightarrow> string" where
  "first_match matches rules path =
     (case List.find (matches path) rules of
        None \<Rightarrow> ''other''
      | Some r \<Rightarrow> snd (snd r))"

subsection \<open>Delimited spans\<close>

text \<open>A span is delimited by backticks (by bold markers) in a text when the text contains
  it between two of them and it has no such character itself.\<close>

definition backtick_span :: "string \<Rightarrow> string \<Rightarrow> bool" where
  "backtick_span content t = (CHR 0x60 \<notin> set t \<and> sublist (CHR 0x60 # t @ [CHR 0x60]) content)"

definition bold_span :: "string \<Rightarrow> string \<Rightarrow> bool" where
  "bold_span content t = (CHR ''*'' \<notin> set t \<and> sublist (''**'' @ t @ ''**'') content)"

subsection \<open>Sections of a decision record\<close>

text \<open>The fields as the specification words them, line by line: the section of a name
  starts after the first line that is a level-2 heading (\<open>## \<close> and the name, letter case
  ignored) and ends before the next line that is a level-2 heading.\<close>

fun join_lines :: "string list \<Rightarrow> string" where
  "join_lines [] = []"
| "join_lines [l] = l"
| "join_lines (l # m # ls) = l @ ''\<newline>'' @ join_lines (m # ls)"

definition is_level2 :: "string \<Rightarrow> bool" where
  "is_level2 line = prefix ''## '' line"

definition names_heading :: "string \<Rightarrow> string \<Rightarrow> bool" where
  "names_heading name line = (is_level2 line \<and> lower (strip (drop 3 line)) = lower name)"

definition spec_section :: "string \<Rightarrow> string \<Rightarrow> string" where
  "spec_section name content =
     (case dropWhile (\<lambda>l. \<not> names_heading name l) (py_split ''\<newline>'' content) of
        [] \<Rightarrow> []
      | heading # after \<Rightarrow> take 2000 (strip (join_lines (takeWhile (\<lambda>l. \<not> is_level2 l) after))))"

subsection \<open>Results of a scan\<close>







text \<open>A standard output that takes every line, and one with the encoding \<open>ascii\<close> and
  the error handler \<open>strict\<close> (as under \<open>PYTHONIOENCODING=ascii\<close>), which raises on a line
  with a character from U+0080 on; the text of its exception is shortened to the reason.\<close>

definition plain_stdout :: stdout where
  "plain_stdout line = None"

definition ascii_stdout :: stdout where
  "ascii_stdout line =
     (if list_all (\<lambda>c. (of_char c :: nat) < 128) line then None
      else Some (UnicodeEncodeError ''ordinal not in range(128)''))"

text \<open>A corpus of two files: one named with a y with diaeresis (U+00FF) whose read raises
  a decode error, and a well-formed one.\<close>

definition sample_bad_file :: md_file where
  "sample_bad_file =
     \<lparr>rel_parts = [[CHR 0xFF] @ ''.md''],
      read_text = Inl (UnicodeDecodeError ''invalid start byte'')\<rparr>"

definition sample_good_file :: md_file where
  "sample_good_file = \<lparr>rel_parts = [''guide.md''], read_text = Inr ''# Hi''\<rparr>"

subsection \<open>Graphs up to the identities of their nodes\<close>

text \<open>The store gives a new node the next free identity, so a second run does not give
  the nodes the identities of the first. \<open>shift_graph c d\<close> renames the identities from
  \<open>c\<close> on by adding \<open>d\<close>, in the nodes, in the ends of the relationships and in the next
  free identity: two graphs that differ by such a renaming have the same nodes, labels,
  properties and relationships.\<close>

definition shift_id :: "nat \<Rightarrow> nat \<Rightarrow> nat \<Rightarrow> nat" where
  "shift_id c d i = (if i < c then i else i + d)"

definition shift_edge :: "nat \<Rightarrow> nat \<Rightarrow> edge \<Rightarrow> edge" where
  "shift_edge c d e = (case e of (a, t, b) \<Rightarrow> (shift_id c d a, t, shift_id c d b))"

definition shift_graph :: "nat \<Rightarrow> nat \<Rightarrow> graph \<Rightarrow> graph" where
  "shift_graph c d g =
     \<lparr>nodes = map (\<lambda>n. n\<lparr>node_id := shift_id c d (node_id n)\<rparr>) (nodes g),
      edges = map (shift_edge c d) (edges g),
      next_id = next_id g + d\<rparr>"

text \<open>The nodes that the reference statement binds for a path.\<close>

definition document_nodes :: "string \<Rightarrow> string \<Rightarrow> graph \<Rightarrow> nat list" where
  "document_nodes project path g = match_nodes [project, ''Document''] [(''path'', Str path)] g"

text \<open>The write sequence after the reset; a graph that has grown from another one by
  nodes that carry the project label and relationships that start at such nodes, so that
  a reset brings both to the same graph; the path values of the nodes that the reference
  statement can bind; the state before the reference statements, where no \<open>REFERENCES\<close>
  relationship starts at a node of the project; a relationship that occurs at most once.\<close>

definition write_all :: "string \<Rightarrow> Document list \<Rightarrow> Decision list \<Rightarrow> graph \<Rightarrow> graph" where
  "write_all project ds decs g =
     fold (write_references project) ds
       (fold (decision_query project) decs (fold (write_document project) ds g))"

definition grows :: "string \<Rightarrow> graph \<Rightarrow> graph \<Rightarrow> bool" where
  "grows project g g' =
     (wf_graph g' \<and> next_id g \<le> next_id g' \<and>
      detach_delete [project] g' = (detach_delete [project] g)\<lparr>next_id := next_id g'\<rparr>)"

definition target_paths :: "string \<Rightarrow> graph \<Rightarrow> pval list" where
  "target_paths project g =
     concat (map (\<lambda>n. case map_of (props n) ''path'' of Some v \<Rightarrow> [v] | None \<Rightarrow> [])
       (filter (node_matches [project, ''Document''] []) (nodes g)))"

definition pre_refs :: "string \<Rightarrow> nat \<Rightarrow> graph \<Rightarrow> bool" where
  "pre_refs project c g =
     (c \<le> next_id g \<and>
      (\<forall>n\<in>set (nodes g). project \<in> set (labels n) \<longrightarrow> c \<le> node_id n) \<and>
      (\<forall>(a, t, b)\<in>set (edges g). t = ''REFERENCES'' \<longrightarrow> a < c))"

definition at_most_once :: "edge \<Rightarrow> graph \<Rightarrow> bool" where
  "at_most_once e g = (count_list (edges g) e \<le> 1)"

text \<open>A small store and corpus: a node of another project, a stale node of the project
  \<open>P\<close>, and two documents of which the first refers twice to the second and once to a
  path that no document has.\<close>

definition sample_store :: graph where
  "sample_store =
     \<lparr>nodes = [\<lparr>node_id = 0, labels = [''Other''], props = []\<rparr>,
               \<lparr>node_id = 1, labels = [''P'', ''Manual''], props = []\<rparr>],
      edges = [(0, ''LINKS'', 1)],
      next_id = 2\<rparr>"

definition sample_a :: Document where
  "sample_a =
     \<lparr>doc_path = ''a.md'', doc_title = ''A'', doc_type = ''other'', doc_headings = [],
      doc_content = ''see b'', doc_frontmatter = [],
      doc_references = [''b.md'', ''missing.md'', ''b.md''],
      doc_components = [''Jupiter''], doc_concepts = []\<rparr>"

definition sample_b :: Document where
  "sample_b =
     \<lparr>doc_path = ''b.md'', doc_title = ''B'', doc_type = ''other'', doc_headings = [],
      doc_content = ''b'', doc_frontmatter = [], doc_references = [],
      doc_components = [], doc_concepts = []\<rparr>"

section \<open>Facts about the text primitives\<close>

text \<open>The definitions that evaluate the character classes and the case mappings.\<close>

lemmas char_simps = lower_def lower_char_def upper_def upper_char_def upper_letters_def
  lower_letters_def ascii_upper_def ascii_lower_def latin1_upper_def latin1_lower_def
  ascii_digits_def is_space_def is_digit_def is_cased_def is_word_def strip_def

lemma contains_sublist: "contains s sub = sublist sub s"
  by (induction s) (auto simp: sublist_Cons_right)

lemma find_sep_None: "sep \<noteq> [] \<Longrightarrow> find_sep sep s = None \<longleftrightarrow> \<not> sublist sep s"
  by (induction s) (auto simp: sublist_Cons_right split: option.splits)

lemma find_sep_Some:
  "find_sep sep s = Some (b, a) \<Longrightarrow> s = b @ sep @ a"
proof (induction s arbitrary: b)
  case Nil
  then show ?case by simp
next
  case (Cons c cs)
  show ?case
  proof (cases "prefix sep (c # cs)")
    case True
    with Cons.prems have "b = []" and "a = drop (length sep) (c # cs)" by auto
    moreover from True obtain r where "c # cs = sep @ r" by (auto simp: prefix_def)
    ultimately show ?thesis by simp
  next
    case False
    with Cons.prems obtain b' where "find_sep sep cs = Some (b', a)" and "b = c # b'"
      by (auto split: option.splits)
    with Cons.IH show ?thesis by simp
  qed
qed

section \<open>Facts about the classifier\<close>

text \<open>Looking for a keyword without upper-case letters in the lower-cased path is looking
  for it in the path with letter case ignored.\<close>

lemma upper_letters_distinct: "distinct upper_letters"
  by (simp add: upper_letters_def ascii_upper_def latin1_upper_def)

lemma letters_length: "length upper_letters = length lower_letters"
  by (simp add: upper_letters_def lower_letters_def ascii_upper_def ascii_lower_def
      latin1_upper_def latin1_lower_def)

lemma lower_char_same_letter:
  assumes "k \<notin> set upper_letters"
  shows "lower_char c = k \<longleftrightarrow> same_letter c k"
proof (cases "map_of (zip upper_letters lower_letters) c")
  case None
  with letters_length have "c \<notin> set upper_letters" by (simp add: map_of_zip_is_None)
  then have "(c, k) \<notin> set (zip upper_letters lower_letters)" by (auto dest: set_zip_leftD)
  moreover from assms have "(k, c) \<notin> set (zip upper_letters lower_letters)"
    by (auto dest: set_zip_leftD)
  ultimately show ?thesis using None by (auto simp: lower_char_def same_letter_def)
next
  case (Some d)
  from upper_letters_distinct letters_length
  have dm: "distinct (map fst (zip upper_letters lower_letters))" by simp
  from Some have "(c, d) \<in> set (zip upper_letters lower_letters)" by (rule map_of_SomeD)
  then have "c \<in> set upper_letters" by (rule set_zip_leftD)
  with assms have "c \<noteq> k" by auto
  moreover have "(c, k) \<in> set (zip upper_letters lower_letters) \<longleftrightarrow> k = d"
  proof
    assume "(c, k) \<in> set (zip upper_letters lower_letters)"
    with dm have "map_of (zip upper_letters lower_letters) c = Some k" by (rule map_of_is_SomeI)
    with Some show "k = d" by simp
  next
    assume "k = d"
    with Some show "(c, k) \<in> set (zip upper_letters lower_letters)" by (auto dest: map_of_SomeD)
  qed
  moreover from assms have "(k, c) \<notin> set (zip upper_letters lower_letters)"
    by (auto dest: set_zip_leftD)
  ultimately show ?thesis using Some by (auto simp: lower_char_def same_letter_def)
qed

lemma prefix_lower_ci:
  "set keyword \<inter> set upper_letters = {} \<Longrightarrow> prefix keyword (lower s) = prefix_ci keyword s"
proof (induction keyword arbitrary: s)
  case Nil
  then show ?case by (simp add: prefix_ci_def)
next
  case (Cons k keyword)
  from Cons.prems have k: "k \<notin> set upper_letters"
    and rest: "set keyword \<inter> set upper_letters = {}" by auto
  note IH = Cons.IH [OF rest]
  show ?case
  proof (cases s)
    case Nil
    then show ?thesis by (simp add: prefix_ci_def lower_def)
  next
    case (Cons c cs)
    with IH [of cs] lower_char_same_letter [OF k, of c] show ?thesis
      by (auto simp: prefix_ci_def lower_def)
  qed
qed

lemma contains_lower_ci:
  "set keyword \<inter> set upper_letters = {} \<Longrightarrow> contains (lower s) keyword = contains_ci s keyword"
proof (induction s)
  case Nil
  then show ?case by (simp add: lower_def)
next
  case (Cons c cs)
  from prefix_lower_ci [OF Cons.prems, of "c # cs"] Cons.IH [OF Cons.prems] show ?case
    by (simp add: lower_def)
qed

section \<open>Facts about the frontmatter loop\<close>








section \<open>Facts about the extractors\<close>

lemma fold_set_add:
  "distinct acc \<Longrightarrow> distinct (fold set_add xs acc) \<and> set (fold set_add xs acc) = set acc \<union> set xs"
  by (induction xs arbitrary: acc) (auto simp: set_add_def)

lemma sublist_drop_trans: "sublist xs (drop n ys) \<Longrightarrow> sublist xs ys"
  by (metis append_take_drop_id sublist_append)

lemma takeWhile_stop:
  "length (takeWhile P xs) < length xs \<Longrightarrow> \<exists>x r. xs = takeWhile P xs @ x # r \<and> \<not> P x"
  by (induction xs) auto

lemma backtick_at_span:
  assumes "backtick_at s = Some t"
  shows "t \<noteq> [] \<and> CHR 0x60 \<notin> set t \<and> (\<exists>r. s = CHR 0x60 # t @ CHR 0x60 # r)"
proof -
  from assms obtain cs where s: "s = CHR 0x60 # cs"
    and t: "t = takeWhile (\<lambda>c. c \<noteq> CHR 0x60) cs" and ne: "t \<noteq> []" and len: "length t < length cs"
    by (auto simp: backtick_at_def Let_def split: list.splits if_splits)
  from takeWhile_stop [of "\<lambda>c. c \<noteq> CHR 0x60" cs] len t obtain r where "cs = t @ CHR 0x60 # r"
    by auto
  moreover from t have "CHR 0x60 \<notin> set t" by (auto dest: set_takeWhileD)
  ultimately show ?thesis using s ne by auto
qed

lemma backticks_from_span:
  "t \<in> set (backticks_from s) \<Longrightarrow> t \<noteq> [] \<and> backtick_span s t"
proof (induction s rule: backticks_from.induct)
  case 1
  then show ?case by simp
next
  case (2 c cs)
  show ?case
  proof (cases "backtick_at (c # cs)")
    case None
    with "2.IH"(1) "2.prems" have "t \<noteq> [] \<and> backtick_span cs t" by simp
    then show ?thesis by (auto simp: backtick_span_def sublist_Cons_right)
  next
    case (Some t')
    from Some "2.prems" have "t = t' \<or> t \<in> set (backticks_from (drop (length t' + 1) cs))"
      by simp
    then show ?thesis
    proof
      assume "t = t'"
      with backtick_at_span [OF Some] obtain r where "t \<noteq> []" "CHR 0x60 \<notin> set t"
        "c # cs = (CHR 0x60 # t @ [CHR 0x60]) @ r" by auto
      then show ?thesis unfolding backtick_span_def by (metis sublist_append_rightI)
    next
      assume "t \<in> set (backticks_from (drop (length t' + 1) cs))"
      with "2.IH"(2) [OF Some] have "t \<noteq> []" "backtick_span (drop (length t' + 1) cs) t" by simp_all
      then show ?thesis
        by (auto simp: backtick_span_def sublist_Cons_right dest: sublist_drop_trans)
    qed
  qed
qed

lemma bold_at_span:
  assumes "bold_at s = Some t"
  shows "t \<noteq> [] \<and> CHR ''*'' \<notin> set t \<and> (\<exists>r. s = ''**'' @ t @ ''**'' @ r)"
proof -
  from assms obtain cs where s: "s = CHR ''*'' # CHR ''*'' # cs"
    and t: "t = takeWhile (\<lambda>c. c \<noteq> CHR ''*'') cs" and ne: "t \<noteq> []"
    and pre: "prefix ''**'' (drop (length t) cs)"
    by (auto simp: bold_at_def Let_def split: list.splits if_splits)
  from pre obtain r where "drop (length t) cs = ''**'' @ r" by (auto simp: prefix_def)
  moreover from t have "take (length t) cs = t"
    by (metis takeWhile_eq_take)
  ultimately have "cs = t @ ''**'' @ r" by (metis append_take_drop_id)
  moreover from t have "CHR ''*'' \<notin> set t" by (auto dest: set_takeWhileD)
  ultimately show ?thesis using s ne by auto
qed

lemma bolds_from_span:
  "t \<in> set (bolds_from s) \<Longrightarrow> t \<noteq> [] \<and> bold_span s t"
proof (induction s rule: bolds_from.induct)
  case 1
  then show ?case by simp
next
  case (2 c cs)
  show ?case
  proof (cases "bold_at (c # cs)")
    case None
    with "2.IH"(1) "2.prems" have "t \<noteq> [] \<and> bold_span cs t" by simp
    then show ?thesis by (auto simp: bold_span_def sublist_Cons_right)
  next
    case (Some t')
    from Some "2.prems" have "t = t' \<or> t \<in> set (bolds_from (drop (length t' + 3) cs))"
      by simp
    then show ?thesis
    proof
      assume "t = t'"
      with bold_at_span [OF Some] obtain r where "t \<noteq> []" "CHR ''*'' \<notin> set t"
        "c # cs = (''**'' @ t @ ''**'') @ r" by auto
      then show ?thesis unfolding bold_span_def by (metis sublist_append_rightI)
    next
      assume "t \<in> set (bolds_from (drop (length t' + 3) cs))"
      with "2.IH"(2) [OF Some] have "t \<noteq> []" "bold_span (drop (length t' + 3) cs) t" by simp_all
      then show ?thesis
        by (auto simp: bold_span_def sublist_Cons_right dest: sublist_drop_trans)
    qed
  qed
qed

section \<open>Facts about the corpus scanner\<close>













section \<open>Facts about the graph writer\<close>

lemma shift_id_inj: "shift_id c d a = shift_id c d b \<longleftrightarrow> a = b"
  by (auto simp: shift_id_def)

lemma shift_edge_inj: "shift_edge c d e = shift_edge c d e' \<longleftrightarrow> e = e'"
  by (cases e, cases e') (auto simp: shift_edge_def shift_id_inj)

lemma node_matches_id: "node_matches ls ps (n\<lparr>node_id := i\<rparr>) = node_matches ls ps n"
  by (simp add: node_matches_def)

lemma match_nodes_shift:
  "match_nodes ls ps (shift_graph c d g) = map (shift_id c d) (match_nodes ls ps g)"
  by (simp add: match_nodes_def shift_graph_def filter_map comp_def node_matches_id)

lemma create_node_shift:
  "c \<le> next_id g \<Longrightarrow>
   create_node ls ps (shift_graph c d g) = shift_graph c d (create_node ls ps g)"
  by (simp add: create_node_def shift_graph_def shift_id_def)

lemma merge_edge_shift:
  "merge_edge (shift_edge c d e) (shift_graph c d g) = shift_graph c d (merge_edge e g)"
  by (auto simp: merge_edge_def shift_graph_def shift_edge_inj)

lemma fold_merge_edge_shift:
  "fold merge_edge (map (shift_edge c d) es) (shift_graph c d g) =
   shift_graph c d (fold merge_edge es g)"
  by (induction es arbitrary: g) (simp_all add: merge_edge_shift)

lemma merge_node_shift:
  "c \<le> next_id g \<Longrightarrow>
   merge_node ls ps (shift_graph c d g) =
     (map (shift_id c d) (fst (merge_node ls ps g)), shift_graph c d (snd (merge_node ls ps g)))"
  by (cases "match_nodes ls ps g")
     (simp_all add: merge_node_def match_nodes_shift create_node_shift,
      simp_all add: shift_graph_def shift_id_def)

lemma next_id_merge_edge: "next_id (merge_edge e g) = next_id g"
  by (simp add: merge_edge_def)

lemma next_id_fold_merge_edge: "next_id (fold merge_edge es g) = next_id g"
  by (induction es arbitrary: g) (simp_all add: next_id_merge_edge)

lemma next_id_merge_node: "next_id g \<le> next_id (snd (merge_node ls ps g))"
  by (simp add: merge_node_def create_node_def split: list.splits)

lemma link_query_shift:
  assumes "c \<le> next_id g"
  shows "link_query project kind rel name path (shift_graph c d g) =
         shift_graph c d (link_query project kind rel name path g)"
proof -
  obtain cs g1 where m: "merge_node [project, kind] [(''name'', Str name)] g = (cs, g1)"
    by (cases "merge_node [project, kind] [(''name'', Str name)] g")
  with merge_node_shift [OF assms, of "[project, kind]" "[(''name'', Str name)]" d]
  have m': "merge_node [project, kind] [(''name'', Str name)] (shift_graph c d g) =
      (map (shift_id c d) cs, shift_graph c d g1)" by simp
  let ?ds = "match_nodes [project, ''Document''] [(''path'', Str path)] g1"
  have "concat (map (\<lambda>x. map (\<lambda>y. (y, rel, x)) (map (shift_id c d) ?ds)) (map (shift_id c d) cs)) =
      map (shift_edge c d) (concat (map (\<lambda>x. map (\<lambda>y. (y, rel, x)) ?ds) cs))"
    by (simp add: map_concat comp_def shift_edge_def)
  with m m' show ?thesis
    by (simp add: link_query_def match_nodes_shift fold_merge_edge_shift)
qed

lemma reference_query_shift:
  "reference_query project from_path to_path (shift_graph c d g) =
   shift_graph c d (reference_query project from_path to_path g)"
proof -
  let ?d1 = "match_nodes [project, ''Document''] [(''path'', Str from_path)] g"
  let ?d2 = "match_nodes [project, ''Document''] [(''path'', Str to_path)] g"
  have "concat (map (\<lambda>x. map (\<lambda>y. (x, ''REFERENCES'', y)) (map (shift_id c d) ?d2)) (map (shift_id c d) ?d1)) =
      map (shift_edge c d) (concat (map (\<lambda>x. map (\<lambda>y. (x, ''REFERENCES'', y)) ?d2) ?d1))"
    by (simp add: map_concat comp_def shift_edge_def)
  then show ?thesis
    by (simp add: reference_query_def match_nodes_shift fold_merge_edge_shift Let_def)
qed

lemma next_id_link_query: "next_id g \<le> next_id (link_query project kind rel name path g)"
  using next_id_merge_node [of g "[project, kind]" "[(''name'', Str name)]"]
  by (auto simp: link_query_def next_id_fold_merge_edge split: prod.splits)

lemma next_id_reference_query: "next_id (reference_query project from_path to_path g) = next_id g"
  by (simp add: reference_query_def next_id_fold_merge_edge Let_def)

lemma fold_shift:
  assumes "\<And>x g. c \<le> next_id g \<Longrightarrow> F x (shift_graph c d g) = shift_graph c d (F x g)"
    and "\<And>x g. next_id g \<le> next_id (F x g)"
  shows "c \<le> next_id g \<Longrightarrow> fold F xs (shift_graph c d g) = shift_graph c d (fold F xs g)"
proof (induction xs arbitrary: g)
  case Nil
  then show ?case by simp
next
  case (Cons x xs)
  from Cons.prems assms(2) [of g x] have "c \<le> next_id (F x g)" by simp
  with Cons.IH [of "F x g"] Cons.prems assms(1) show ?case by simp
qed

lemma fold_next_id:
  assumes "\<And>x g. next_id g \<le> next_id (F x g)"
  shows "next_id g \<le> next_id (fold F xs g)"
proof (induction xs arbitrary: g)
  case Nil
  then show ?case by simp
next
  case (Cons x xs)
  from assms [of g x] Cons.IH [of "F x g"] show ?case by simp
qed

lemma next_id_document_query: "next_id g \<le> next_id (document_query project doc g)"
  by (simp add: document_query_def create_node_def)

lemma next_id_decision_query: "next_id g \<le> next_id (decision_query project dec g)"
  by (simp add: decision_query_def create_node_def)

lemma next_id_write_document: "next_id g \<le> next_id (write_document project doc g)"
proof -
  let ?g1 = "document_query project doc g"
  let ?g2 = "fold (\<lambda>comp. link_query project ''Component'' ''DESCRIBES'' comp (doc_path doc))
                 (doc_components doc) ?g1"
  have "next_id g \<le> next_id ?g1" by (rule next_id_document_query)
  also have "\<dots> \<le> next_id ?g2" by (rule fold_next_id) (rule next_id_link_query)
  also have "\<dots> \<le> next_id (write_document project doc g)"
    unfolding write_document_def Let_def by (rule fold_next_id) (rule next_id_link_query)
  finally show ?thesis .
qed

lemma next_id_write_references: "next_id g \<le> next_id (write_references project doc g)"
  unfolding write_references_def by (rule fold_next_id) (simp add: next_id_reference_query)

lemma write_document_shift:
  assumes "c \<le> next_id g"
  shows "write_document project doc (shift_graph c d g) =
         shift_graph c d (write_document project doc g)"
proof -
  let ?g1 = "document_query project doc g"
  let ?F = "\<lambda>comp. link_query project ''Component'' ''DESCRIBES'' comp (doc_path doc)"
  let ?G = "\<lambda>concept. link_query project ''Concept'' ''MENTIONS'' concept (doc_path doc)"
  have 1: "document_query project doc (shift_graph c d g) = shift_graph c d ?g1"
    using assms by (simp add: document_query_def create_node_shift)
  have c1: "c \<le> next_id ?g1" using assms next_id_document_query [of g project doc] by simp
  have 2: "fold ?F (doc_components doc) (shift_graph c d ?g1) =
      shift_graph c d (fold ?F (doc_components doc) ?g1)"
    by (rule fold_shift [OF _ _ c1]) (simp_all add: link_query_shift next_id_link_query)
  have c2: "c \<le> next_id (fold ?F (doc_components doc) ?g1)"
    using c1 fold_next_id [of ?F ?g1 "doc_components doc"] next_id_link_query
    by (meson le_trans)
  have 3: "fold ?G (take 10 (doc_concepts doc)) (shift_graph c d (fold ?F (doc_components doc) ?g1)) =
      shift_graph c d (fold ?G (take 10 (doc_concepts doc)) (fold ?F (doc_components doc) ?g1))"
    by (rule fold_shift [OF _ _ c2]) (simp_all add: link_query_shift next_id_link_query)
  from 1 2 3 show ?thesis by (simp add: write_document_def Let_def)
qed

lemma write_references_shift:
  "c \<le> next_id g \<Longrightarrow>
   write_references project doc (shift_graph c d g) =
   shift_graph c d (write_references project doc g)"
  unfolding write_references_def
  by (rule fold_shift) (simp_all add: reference_query_shift next_id_reference_query)

lemma create_graph_write_all:
  "create_graph g project ds decs = write_all project ds decs (clear_query project g)"
  by (simp add: create_graph_def write_all_def Let_def)

lemma write_all_shift:
  assumes "c \<le> next_id g"
  shows "write_all project ds decs (shift_graph c d g) = shift_graph c d (write_all project ds decs g)"
proof -
  let ?g2 = "fold (write_document project) ds g"
  let ?g3 = "fold (decision_query project) decs ?g2"
  have 1: "fold (write_document project) ds (shift_graph c d g) = shift_graph c d ?g2"
    by (rule fold_shift [OF _ _ assms]) (simp_all add: write_document_shift next_id_write_document)
  have c2: "c \<le> next_id ?g2"
    using assms fold_next_id [of "write_document project" g ds] next_id_write_document
    by (meson le_trans)
  have 2: "fold (decision_query project) decs (shift_graph c d ?g2) = shift_graph c d ?g3"
    by (rule fold_shift [OF _ _ c2])
       (simp_all add: decision_query_def create_node_shift next_id_decision_query [unfolded decision_query_def])
  have c3: "c \<le> next_id ?g3"
    using c2 fold_next_id [of "decision_query project" ?g2 decs] next_id_decision_query
    by (meson le_trans)
  have 3: "fold (write_references project) ds (shift_graph c d ?g3) =
      shift_graph c d (fold (write_references project) ds ?g3)"
    by (rule fold_shift [OF _ _ c3]) (simp_all add: write_references_shift next_id_write_references)
  from 1 2 3 show ?thesis by (simp add: write_all_def)
qed

lemma wf_node_id: "wf_graph g \<Longrightarrow> a \<in> set (match_nodes ls ps g) \<Longrightarrow> a < next_id g"
  by (auto simp: wf_graph_def match_nodes_def list_all_iff)

lemma match_nodes_label:
  "a \<in> set (match_nodes (project # ls) ps g) \<Longrightarrow> a \<in> set (match_nodes [project] [] g)"
  by (auto simp: match_nodes_def node_matches_def)

lemma detach_delete_next_id: "(detach_delete ls g)\<lparr>next_id := next_id g\<rparr> = detach_delete ls g"
  by (simp add: detach_delete_def Let_def)

lemma grows_refl: "wf_graph g \<Longrightarrow> grows project g g"
  by (simp add: grows_def detach_delete_next_id)

lemma grows_trans: "grows project g g' \<Longrightarrow> grows project g' g'' \<Longrightarrow> grows project g g''"
  by (simp add: grows_def)

lemma grows_create_node:
  assumes "wf_graph g"
  shows "grows project g (create_node (project # ls) ps g)"
proof -
  let ?g' = "create_node (project # ls) ps g"
  let ?dead = "match_nodes [project] [] g"
  have dead: "match_nodes [project] [] ?g' = ?dead @ [next_id g]"
    by (simp add: match_nodes_def create_node_def node_matches_def)
  from assms have n: "\<forall>n\<in>set (nodes g). node_id n \<noteq> next_id g"
    and e: "\<forall>(a, t, b)\<in>set (edges g). a \<noteq> next_id g \<and> b \<noteq> next_id g"
    by (auto simp: wf_graph_def list_all_iff)
  from n have fn: "filter (\<lambda>n. node_id n \<notin> set (?dead @ [next_id g])) (nodes g) =
      filter (\<lambda>n. node_id n \<notin> set ?dead) (nodes g)"
    by (intro filter_cong) auto
  from e have fe: "filter (\<lambda>(a, t, b). a \<notin> set (?dead @ [next_id g]) \<and> b \<notin> set (?dead @ [next_id g])) (edges g) =
      filter (\<lambda>(a, t, b). a \<notin> set ?dead \<and> b \<notin> set ?dead) (edges g)"
    by (intro filter_cong) auto
  have "detach_delete [project] ?g' = (detach_delete [project] g)\<lparr>next_id := next_id ?g'\<rparr>"
    unfolding detach_delete_def Let_def dead using fn fe by (simp add: create_node_def)
  moreover from assms have "wf_graph ?g'"
    by (auto simp: wf_graph_def create_node_def list_all_iff)
  ultimately show ?thesis by (simp add: grows_def create_node_def)
qed

lemma grows_merge_edge:
  assumes "wf_graph g" and "a \<in> set (match_nodes [project] [] g)"
    and "a < next_id g" and "b < next_id g"
  shows "grows project g (merge_edge (a, t, b) g)"
proof -
  have "match_nodes [project] [] (merge_edge (a, t, b) g) = match_nodes [project] [] g"
    by (simp add: match_nodes_def merge_edge_def)
  with assms(2) have "detach_delete [project] (merge_edge (a, t, b) g) = detach_delete [project] g"
    by (simp add: detach_delete_def merge_edge_def)
  moreover from assms have "wf_graph (merge_edge (a, t, b) g)"
    by (simp add: wf_graph_def merge_edge_def)
  ultimately show ?thesis by (simp add: grows_def next_id_merge_edge detach_delete_next_id)
qed

lemma match_nodes_merge_edge: "match_nodes ls ps (merge_edge e g) = match_nodes ls ps g"
  by (simp add: match_nodes_def merge_edge_def)

lemma grows_fold_merge_edge:
  assumes "wf_graph g"
    and "\<forall>(a, t, b)\<in>set es. a \<in> set (match_nodes [project] [] g) \<and> a < next_id g \<and> b < next_id g"
  shows "grows project g (fold merge_edge es g)"
  using assms
proof (induction es arbitrary: g)
  case Nil
  then show ?case by (simp add: grows_refl)
next
  case (Cons e es)
  obtain a t b where e: "e = (a, t, b)" by (cases e)
  with Cons.prems have 1: "grows project g (merge_edge e g)"
    by (simp add: grows_merge_edge)
  then have "wf_graph (merge_edge e g)" by (simp add: grows_def)
  moreover from Cons.prems(2) have
    "\<forall>(a, t, b)\<in>set es. a \<in> set (match_nodes [project] [] (merge_edge e g)) \<and>
       a < next_id (merge_edge e g) \<and> b < next_id (merge_edge e g)"
    by (simp add: match_nodes_merge_edge next_id_merge_edge)
  ultimately have "grows project (merge_edge e g) (fold merge_edge es (merge_edge e g))"
    by (rule Cons.IH)
  with 1 show ?case by (simp add: grows_trans)
qed

lemma merge_node_grows:
  assumes "wf_graph g" and "merge_node (project # ls) ps g = (cs, g1)"
  shows "grows project g g1 \<and> (\<forall>c\<in>set cs. c < next_id g1)"
proof (cases "match_nodes (project # ls) ps g")
  case Nil
  with assms(2) have "cs = [next_id g]" "g1 = create_node (project # ls) ps g"
    by (simp_all add: merge_node_def)
  with assms(1) show ?thesis by (simp add: grows_create_node) (simp add: create_node_def)
next
  case (Cons m ms)
  with assms(2) have "cs = match_nodes (project # ls) ps g" "g1 = g"
    by (simp_all add: merge_node_def)
  with assms(1) show ?thesis by (auto simp: grows_refl dest: wf_node_id)
qed

lemma grows_link_query:
  assumes "wf_graph g"
  shows "grows project g (link_query project kind rel name path g)"
proof -
  obtain cs g1 where m: "merge_node [project, kind] [(''name'', Str name)] g = (cs, g1)"
    by (cases "merge_node [project, kind] [(''name'', Str name)] g")
  from merge_node_grows [OF assms m] have g1: "grows project g g1"
    and cs: "\<forall>c\<in>set cs. c < next_id g1" by simp_all
  then have wf1: "wf_graph g1" by (simp add: grows_def)
  let ?ds = "match_nodes [project, ''Document''] [(''path'', Str path)] g1"
  let ?es = "concat (map (\<lambda>c. map (\<lambda>d. (d, rel, c)) ?ds) cs)"
  have "\<forall>(a, t, b)\<in>set ?es. a \<in> set (match_nodes [project] [] g1) \<and> a < next_id g1 \<and> b < next_id g1"
    using cs wf1 by (auto dest: match_nodes_label wf_node_id)
  with wf1 have "grows project g1 (fold merge_edge ?es g1)" by (rule grows_fold_merge_edge)
  with g1 m show ?thesis by (simp add: link_query_def grows_trans)
qed

lemma grows_reference_query:
  assumes "wf_graph g"
  shows "grows project g (reference_query project from_path to_path g)"
proof -
  let ?d1 = "match_nodes [project, ''Document''] [(''path'', Str from_path)] g"
  let ?d2 = "match_nodes [project, ''Document''] [(''path'', Str to_path)] g"
  let ?es = "concat (map (\<lambda>d1. map (\<lambda>d2. (d1, ''REFERENCES'', d2)) ?d2) ?d1)"
  have "\<forall>(a, t, b)\<in>set ?es. a \<in> set (match_nodes [project] [] g) \<and> a < next_id g \<and> b < next_id g"
    using assms by (auto dest: match_nodes_label wf_node_id)
  with assms have "grows project g (fold merge_edge ?es g)" by (rule grows_fold_merge_edge)
  then show ?thesis by (simp add: reference_query_def Let_def)
qed

lemma grows_fold:
  assumes "\<And>x g. wf_graph g \<Longrightarrow> grows project g (F x g)"
  shows "wf_graph g \<Longrightarrow> grows project g (fold F xs g)"
proof (induction xs arbitrary: g)
  case Nil
  then show ?case by (simp add: grows_refl)
next
  case (Cons x xs)
  from assms [OF Cons.prems] have 1: "grows project g (F x g)" .
  then have "wf_graph (F x g)" by (simp add: grows_def)
  from Cons.IH [OF this] 1 show ?case by (simp add: grows_trans)
qed

lemma grows_write_document:
  assumes "wf_graph g"
  shows "grows project g (write_document project doc g)"
proof -
  let ?g1 = "document_query project doc g"
  let ?F = "\<lambda>comp. link_query project ''Component'' ''DESCRIBES'' comp (doc_path doc)"
  let ?G = "\<lambda>concept. link_query project ''Concept'' ''MENTIONS'' concept (doc_path doc)"
  from assms have 1: "grows project g ?g1"
    by (simp add: document_query_def grows_create_node)
  then have "wf_graph ?g1" by (simp add: grows_def)
  then have 2: "grows project ?g1 (fold ?F (doc_components doc) ?g1)"
    by (rule grows_fold [rotated]) (rule grows_link_query)
  then have "wf_graph (fold ?F (doc_components doc) ?g1)" by (simp add: grows_def)
  then have "grows project (fold ?F (doc_components doc) ?g1)
      (fold ?G (take 10 (doc_concepts doc)) (fold ?F (doc_components doc) ?g1))"
    by (rule grows_fold [rotated]) (rule grows_link_query)
  with 1 2 show ?thesis unfolding write_document_def Let_def by (meson grows_trans)
qed

lemma grows_write_all:
  assumes "wf_graph g"
  shows "grows project g (write_all project ds decs g)"
proof -
  let ?g2 = "fold (write_document project) ds g"
  let ?g3 = "fold (decision_query project) decs ?g2"
  from assms have 1: "grows project g ?g2"
    by (rule grows_fold [rotated]) (rule grows_write_document)
  then have "wf_graph ?g2" by (simp add: grows_def)
  then have 2: "grows project ?g2 ?g3"
    by (rule grows_fold [rotated]) (simp add: decision_query_def grows_create_node)
  then have "wf_graph ?g3" by (simp add: grows_def)
  then have "grows project ?g3 (fold (write_references project) ds ?g3)"
    by (rule grows_fold [rotated])
       (simp add: write_references_def grows_fold [rotated] grows_reference_query)
  with 1 2 show ?thesis unfolding write_all_def by (meson grows_trans)
qed

lemma wf_detach_delete: "wf_graph g \<Longrightarrow> wf_graph (detach_delete ls g)"
  by (auto simp: wf_graph_def detach_delete_def Let_def list_all_iff)

lemma detach_delete_idem:
  "detach_delete [project] (detach_delete [project] g) = detach_delete [project] g"
proof -
  have "match_nodes [project] [] (detach_delete [project] g) = []"
    by (auto simp: match_nodes_def detach_delete_def Let_def filter_empty_conv)
  then show ?thesis
    by (simp add: detach_delete_def [of "[project]" "detach_delete [project] g"])
qed

lemma shift_graph_identity:
  assumes "wf_graph h" and "next_id h \<le> n"
  shows "h\<lparr>next_id := n\<rparr> = shift_graph (next_id h) (n - next_id h) h"
proof -
  from assms(1) have "map (\<lambda>n'. n'\<lparr>node_id := shift_id (next_id h) (n - next_id h) (node_id n')\<rparr>) (nodes h) = nodes h"
    by (intro map_idI) (auto simp: wf_graph_def list_all_iff shift_id_def)
  moreover from assms(1) have "map (shift_edge (next_id h) (n - next_id h)) (edges h) = edges h"
    by (intro map_idI) (auto simp: wf_graph_def list_all_iff shift_id_def shift_edge_def)
  ultimately show ?thesis using assms(2) by (simp add: shift_graph_def)
qed

lemma create_graph_twice:
  assumes "wf_graph g"
  shows "\<exists>c d. create_graph (create_graph g project ds decs) project ds decs =
           shift_graph c d (create_graph g project ds decs)"
proof -
  let ?h = "detach_delete [project] g"
  let ?g1 = "write_all project ds decs ?h"
  from assms have wfh: "wf_graph ?h" by (rule wf_detach_delete)
  from grows_write_all [OF wfh, of project ds decs]
  have le: "next_id ?h \<le> next_id ?g1"
    and d: "detach_delete [project] ?g1 = ?h\<lparr>next_id := next_id ?g1\<rparr>"
    by (simp_all add: grows_def detach_delete_idem)
  from shift_graph_identity [OF wfh le] d
  have "detach_delete [project] ?g1 = shift_graph (next_id ?h) (next_id ?g1 - next_id ?h) ?h"
    by simp
  then have "write_all project ds decs (detach_delete [project] ?g1) =
      shift_graph (next_id ?h) (next_id ?g1 - next_id ?h) ?g1"
    by (simp add: write_all_shift)
  then show ?thesis by (auto simp: create_graph_write_all clear_query_def)
qed

lemma nodes_merge_edge: "nodes (merge_edge e g) = nodes g"
  by (simp add: merge_edge_def)

lemma nodes_fold_merge_edge: "nodes (fold merge_edge es g) = nodes g"
  by (induction es arbitrary: g) (simp_all add: nodes_merge_edge)

lemma nodes_reference_query: "nodes (reference_query project from_path to_path g) = nodes g"
  by (simp add: reference_query_def Let_def nodes_fold_merge_edge)

lemma nodes_write_references: "nodes (write_references project doc g) = nodes g"
proof -
  have "nodes (fold (\<lambda>ref. reference_query project p ref) rs g) = nodes g" for p rs
    by (induction rs arbitrary: g) (simp_all add: nodes_reference_query)
  then show ?thesis by (simp add: write_references_def)
qed

lemma nodes_fold_write_references: "nodes (fold (write_references project) ds g) = nodes g"
  by (induction ds arbitrary: g) (simp_all add: nodes_write_references)

lemma node_matches_path:
  "node_matches ls [(''path'', v)] n \<longleftrightarrow> node_matches ls [] n \<and> map_of (props n) ''path'' = Some v"
  by (auto simp: node_matches_def)

lemma length_match_nodes_path:
  "length (match_nodes [project, ''Document''] [(''path'', v)] g) =
   count_list (target_paths project g) v"
proof -
  have "length (filter (node_matches ls [(''path'', v)]) ns) =
      count_list (concat (map (\<lambda>n. case map_of (props n) ''path'' of Some v \<Rightarrow> [v] | None \<Rightarrow> [])
        (filter (node_matches ls []) ns))) v"
    for ls ns
    by (induction ns) (auto simp: node_matches_path split: option.splits)
  then show ?thesis by (simp add: match_nodes_def target_paths_def)
qed

lemma target_paths_create_node:
  "target_paths project (create_node ls ps g) =
     target_paths project g @
       (if node_matches [project, ''Document''] [] \<lparr>node_id = next_id g, labels = ls, props = ps\<rparr>
        then (case map_of ps ''path'' of Some v \<Rightarrow> [v] | None \<Rightarrow> []) else [])"
  by (simp add: target_paths_def create_node_def)

lemma target_paths_nodes: "nodes g' = nodes g \<Longrightarrow> target_paths project g' = target_paths project g"
  by (simp add: target_paths_def)

lemma target_paths_named_node:
  "target_paths project (create_node ls [(''name'', v)] g) = target_paths project g"
  unfolding target_paths_create_node by simp

lemma target_paths_merge_node:
  "target_paths project (snd (merge_node ls [(''name'', v)] g)) = target_paths project g"
proof (cases "match_nodes ls [(''name'', v)] g")
  case Nil
  then show ?thesis by (simp add: merge_node_def target_paths_named_node)
next
  case (Cons m ms)
  then show ?thesis by (simp add: merge_node_def)
qed

lemma nodes_link_query:
  "nodes (link_query project kind rel name path g) =
   nodes (snd (merge_node [project, kind] [(''name'', Str name)] g))"
  by (simp add: link_query_def nodes_fold_merge_edge split: prod.splits)

lemma target_paths_link_query:
  "target_paths project (link_query project kind rel name path g) = target_paths project g"
  using target_paths_nodes [OF nodes_link_query] target_paths_merge_node by simp

lemma target_paths_fold_link_query:
  "target_paths project (fold (\<lambda>x. link_query project kind rel x path) xs g) = target_paths project g"
  by (induction xs arbitrary: g) (simp_all add: target_paths_link_query)

lemma target_paths_write_document:
  "target_paths project (write_document project doc g) = target_paths project g @ [Str (doc_path doc)]"
proof -
  have "target_paths project (document_query project doc g) =
      target_paths project g @ [Str (doc_path doc)]"
    unfolding document_query_def target_paths_create_node by (simp add: node_matches_def)
  then show ?thesis
    unfolding write_document_def Let_def target_paths_fold_link_query .
qed

lemma target_paths_decision_query:
  "target_paths project (decision_query project dec g) =
     target_paths project g @ (if project = ''Document'' then [Str (dec_path dec)] else [])"
  unfolding decision_query_def target_paths_create_node by (simp add: node_matches_def)

lemma target_paths_detach_delete: "target_paths project (detach_delete [project] g) = []"
proof -
  have "filter (node_matches [project, ''Document''] []) (nodes (detach_delete [project] g)) = []"
    by (auto simp: detach_delete_def Let_def match_nodes_def node_matches_def filter_empty_conv)
  then show ?thesis by (simp add: target_paths_def)
qed

lemma target_paths_create_graph:
  "target_paths project (create_graph g project ds decs) =
     map (\<lambda>d. Str (doc_path d)) ds @
     (if project = ''Document'' then map (\<lambda>d. Str (dec_path d)) decs else [])"
proof -
  let ?h = "detach_delete [project] g"
  let ?g2 = "fold (write_document project) ds ?h"
  let ?g3 = "fold (decision_query project) decs ?g2"
  have "target_paths project (fold (write_document project) xs g') =
      target_paths project g' @ map (\<lambda>d. Str (doc_path d)) xs" for xs g'
    by (induction xs arbitrary: g') (simp_all add: target_paths_write_document)
  then have 2: "target_paths project ?g2 = map (\<lambda>d. Str (doc_path d)) ds"
    by (simp add: target_paths_detach_delete)
  have 3: "target_paths project (fold (decision_query project) xs g') =
      target_paths project g' @
      (if project = ''Document'' then map (\<lambda>d. Str (dec_path d)) xs else [])" for xs g'
    by (induction xs arbitrary: g') (simp_all add: target_paths_decision_query)
  have "nodes (create_graph g project ds decs) = nodes ?g3"
    by (simp add: create_graph_def clear_query_def Let_def nodes_fold_write_references)
  then have "target_paths project (create_graph g project ds decs) = target_paths project ?g3"
    by (rule target_paths_nodes)
  with 2 3 [of decs ?g2] show ?thesis by simp
qed

lemma match_nodes_nodes: "nodes g' = nodes g \<Longrightarrow> match_nodes ls ps g' = match_nodes ls ps g"
  by (simp add: match_nodes_def)

lemma count_list_distinct: "distinct xs \<Longrightarrow> x \<in> set xs \<Longrightarrow> count_list xs x = 1"
  by (induction xs) auto

lemma count_list_notin: "x \<notin> set xs \<Longrightarrow> count_list xs x = 0"
  by (induction xs) auto

lemma count_list_in: "x \<in> set xs \<Longrightarrow> 1 \<le> count_list xs x"
  by (induction xs) auto

lemma pre_refs_start:
  assumes "wf_graph g"
  shows "pre_refs project (next_id g) (detach_delete [project] g)"
proof -
  have "project \<notin> set (labels n)" if "n \<in> set (nodes (detach_delete [project] g))" for n
    using that by (auto simp: detach_delete_def Let_def match_nodes_def node_matches_def)
  moreover have "a < next_id g" if "(a, t, b) \<in> set (edges (detach_delete [project] g))" for a t b
    using that assms by (auto simp: detach_delete_def Let_def wf_graph_def list_all_iff)
  ultimately show ?thesis by (auto simp: pre_refs_def detach_delete_def Let_def)
qed

lemma pre_refs_create_node: "pre_refs project c g \<Longrightarrow> pre_refs project c (create_node ls ps g)"
  by (auto simp: pre_refs_def create_node_def)

lemma pre_refs_merge_edge:
  "pre_refs project c g \<Longrightarrow> t \<noteq> ''REFERENCES'' \<Longrightarrow> pre_refs project c (merge_edge (a, t, b) g)"
  by (auto simp: pre_refs_def merge_edge_def)

lemma pre_refs_fold_merge_edge:
  "pre_refs project c g \<Longrightarrow> \<forall>(a, t, b)\<in>set es. t \<noteq> ''REFERENCES'' \<Longrightarrow>
   pre_refs project c (fold merge_edge es g)"
proof (induction es arbitrary: g)
  case Nil
  then show ?case by simp
next
  case (Cons e es)
  obtain a t b where e: "e = (a, t, b)" by (cases e)
  with Cons.prems have "pre_refs project c (merge_edge e g)" by (simp add: pre_refs_merge_edge)
  with Cons.IH Cons.prems(2) show ?case by simp
qed

lemma pre_refs_merge_node: "pre_refs project c g \<Longrightarrow> pre_refs project c (snd (merge_node ls ps g))"
  by (cases "match_nodes ls ps g") (simp_all add: merge_node_def pre_refs_create_node)

lemma pre_refs_link_query:
  assumes "pre_refs project c g" and "rel \<noteq> ''REFERENCES''"
  shows "pre_refs project c (link_query project kind rel name path g)"
proof -
  obtain cs g1 where m: "merge_node [project, kind] [(''name'', Str name)] g = (cs, g1)"
    by (cases "merge_node [project, kind] [(''name'', Str name)] g")
  with pre_refs_merge_node [OF assms(1), of "[project, kind]" "[(''name'', Str name)]"]
  have "pre_refs project c g1" by simp
  then have "pre_refs project c (fold merge_edge
      (concat (map (\<lambda>c. map (\<lambda>d. (d, rel, c))
         (match_nodes [project, ''Document''] [(''path'', Str path)] g1)) cs)) g1)"
    using assms(2) by (intro pre_refs_fold_merge_edge) auto
  with m show ?thesis by (simp add: link_query_def)
qed

lemma pre_refs_fold:
  assumes "\<And>x g. pre_refs project c g \<Longrightarrow> pre_refs project c (F x g)"
  shows "pre_refs project c g \<Longrightarrow> pre_refs project c (fold F xs g)"
  by (induction xs arbitrary: g) (simp_all add: assms)

lemma pre_refs_write_document:
  assumes "pre_refs project c g"
  shows "pre_refs project c (write_document project doc g)"
proof -
  from assms have "pre_refs project c (document_query project doc g)"
    by (simp add: document_query_def pre_refs_create_node)
  then have "pre_refs project c
      (fold (\<lambda>comp. link_query project ''Component'' ''DESCRIBES'' comp (doc_path doc))
         (doc_components doc) (document_query project doc g))"
    by (rule pre_refs_fold [rotated]) (simp add: pre_refs_link_query)
  then show ?thesis unfolding write_document_def Let_def
    by (rule pre_refs_fold [rotated]) (simp add: pre_refs_link_query)
qed

lemma pre_refs_before_references:
  assumes "wf_graph g"
  shows "pre_refs project (next_id g)
     (fold (decision_query project) decs
        (fold (write_document project) ds (detach_delete [project] g)))"
proof -
  from assms have "pre_refs project (next_id g) (detach_delete [project] g)"
    by (rule pre_refs_start)
  then have "pre_refs project (next_id g) (fold (write_document project) ds (detach_delete [project] g))"
    by (rule pre_refs_fold [rotated]) (rule pre_refs_write_document)
  then show ?thesis
    by (rule pre_refs_fold [rotated]) (simp add: decision_query_def pre_refs_create_node)
qed

lemma pre_refs_no_reference:
  assumes "pre_refs project c g" and "a \<in> set (match_nodes (project # ls) ps g)"
  shows "count_list (edges g) (a, ''REFERENCES'', b) = 0"
proof -
  from assms have "c \<le> a" by (auto simp: pre_refs_def match_nodes_def node_matches_def)
  with assms(1) have "(a, ''REFERENCES'', b) \<notin> set (edges g)" by (auto simp: pre_refs_def)
  then show ?thesis by (rule count_list_notin)
qed

lemma once_merge_edge: "at_most_once e g \<Longrightarrow> at_most_once e (merge_edge e' g)"
  by (auto simp: at_most_once_def merge_edge_def dest: count_list_notin)

lemma once_fold_merge_edge: "at_most_once e g \<Longrightarrow> at_most_once e (fold merge_edge es g)"
  by (induction es arbitrary: g) (simp_all add: once_merge_edge)

lemma once_reference_query:
  "at_most_once e g \<Longrightarrow> at_most_once e (reference_query project from_path to_path g)"
  by (simp add: reference_query_def Let_def once_fold_merge_edge)

lemma once_write_references:
  assumes "at_most_once e g"
  shows "at_most_once e (write_references project doc g)"
proof -
  have "at_most_once e g' \<Longrightarrow>
      at_most_once e (fold (\<lambda>ref. reference_query project p ref) rs g')" for p rs g'
    by (induction rs arbitrary: g') (simp_all add: once_reference_query)
  with assms show ?thesis by (simp add: write_references_def)
qed

lemma once_fold_write_references:
  "at_most_once e g \<Longrightarrow> at_most_once e (fold (write_references project) ds g)"
  by (induction ds arbitrary: g) (simp_all add: once_write_references)

lemma edges_merge_edge: "set (edges (merge_edge e g)) = insert e (set (edges g))"
  by (auto simp: merge_edge_def)

lemma edges_fold_merge_edge: "set (edges (fold merge_edge es g)) = set es \<union> set (edges g)"
  by (induction es arbitrary: g) (auto simp: edges_merge_edge)

lemma edges_reference_query:
  "set (edges (reference_query project from_path to_path g)) =
     {(a, ''REFERENCES'', b) | a b.
        a \<in> set (match_nodes [project, ''Document''] [(''path'', Str from_path)] g) \<and>
        b \<in> set (match_nodes [project, ''Document''] [(''path'', Str to_path)] g)} \<union>
     set (edges g)"
  by (auto simp: reference_query_def Let_def edges_fold_merge_edge)

lemma edges_reference_query_mono:
  "set (edges g) \<subseteq> set (edges (reference_query project from_path to_path g))"
  by (auto simp: edges_reference_query)

lemma edges_write_references_mono:
  "set (edges g) \<subseteq> set (edges (write_references project doc g))"
proof -
  have "set (edges g') \<subseteq> set (edges (fold (\<lambda>ref. reference_query project p ref) rs g'))" for p rs g'
  proof (induction rs arbitrary: g')
    case Nil
    then show ?case by simp
  next
    case (Cons r rs)
    from edges_reference_query_mono [of g' project p r] Cons [of "reference_query project p r g'"]
    show ?case by auto
  qed
  then show ?thesis by (simp add: write_references_def)
qed

lemma edges_fold_write_references_mono:
  "set (edges g) \<subseteq> set (edges (fold (write_references project) ds g))"
proof (induction ds arbitrary: g)
  case Nil
  then show ?case by simp
next
  case (Cons d ds)
  from edges_write_references_mono [of g project d] Cons [of "write_references project d g"]
  show ?case by auto
qed

lemma fold_reference_query_present:
  assumes "r \<in> set rs"
    and "a \<in> set (match_nodes [project, ''Document''] [(''path'', Str p)] g)"
    and "b \<in> set (match_nodes [project, ''Document''] [(''path'', Str r)] g)"
  shows "(a, ''REFERENCES'', b) \<in> set (edges (fold (\<lambda>ref. reference_query project p ref) rs g))"
  using assms
proof (induction rs arbitrary: g)
  case Nil
  then show ?case by simp
next
  case (Cons x rs)
  let ?g' = "reference_query project p x g"
  have nodes: "nodes ?g' = nodes g" by (rule nodes_reference_query)
  show ?case
  proof (cases "x = r")
    case True
    with Cons.prems have "(a, ''REFERENCES'', b) \<in> set (edges ?g')"
      by (auto simp: edges_reference_query)
    moreover have "set (edges ?g') \<subseteq> set (edges (fold (\<lambda>ref. reference_query project p ref) rs ?g'))"
      using edges_write_references_mono [of ?g' project "\<lparr>doc_path = p, doc_title = [], doc_type = [],
        doc_headings = [], doc_content = [], doc_frontmatter = [], doc_references = rs,
        doc_components = [], doc_concepts = []\<rparr>"]
      by (simp add: write_references_def)
    ultimately show ?thesis by auto
  next
    case False
    with Cons.prems have "r \<in> set rs" by simp
    moreover from Cons.prems have
      "a \<in> set (match_nodes [project, ''Document''] [(''path'', Str p)] ?g')"
      "b \<in> set (match_nodes [project, ''Document''] [(''path'', Str r)] ?g')"
      by (simp_all add: match_nodes_nodes [OF nodes])
    ultimately show ?thesis using Cons.IH [of ?g'] by simp
  qed
qed

lemma write_references_present:
  assumes "r \<in> set (doc_references doc)"
    and "a \<in> set (match_nodes [project, ''Document''] [(''path'', Str (doc_path doc))] g)"
    and "b \<in> set (match_nodes [project, ''Document''] [(''path'', Str r)] g)"
  shows "(a, ''REFERENCES'', b) \<in> set (edges (write_references project doc g))"
  unfolding write_references_def using assms by (rule fold_reference_query_present)

lemma fold_write_references_present:
  assumes "doc \<in> set ds" and "r \<in> set (doc_references doc)"
    and "a \<in> set (match_nodes [project, ''Document''] [(''path'', Str (doc_path doc))] g)"
    and "b \<in> set (match_nodes [project, ''Document''] [(''path'', Str r)] g)"
  shows "(a, ''REFERENCES'', b) \<in> set (edges (fold (write_references project) ds g))"
  using assms
proof (induction ds arbitrary: g)
  case Nil
  then show ?case by simp
next
  case (Cons x ds)
  let ?g' = "write_references project x g"
  have nodes: "nodes ?g' = nodes g" by (rule nodes_write_references)
  show ?case
  proof (cases "x = doc")
    case True
    with Cons.prems have "(a, ''REFERENCES'', b) \<in> set (edges ?g')"
      by (simp add: write_references_present)
    with edges_fold_write_references_mono [of ?g' project ds] show ?thesis by auto
  next
    case False
    with Cons.prems have "doc \<in> set ds" by simp
    moreover from Cons.prems have
      "a \<in> set (match_nodes [project, ''Document''] [(''path'', Str (doc_path doc))] ?g')"
      "b \<in> set (match_nodes [project, ''Document''] [(''path'', Str r)] ?g')"
      by (simp_all add: match_nodes_nodes [OF nodes])
    ultimately show ?thesis using Cons.IH [of ?g'] Cons.prems(2) by simp
  qed
qed

lemma labels_shift:
  "map labels (filter (node_matches ls ps) (map (\<lambda>n. n\<lparr>node_id := f (node_id n)\<rparr>) ns)) =
   map labels (filter (node_matches ls ps) ns)"
  by (induction ns) (simp_all add: node_matches_id)

lemma concat_map_Nil: "concat (map (\<lambda>x. []) xs) = []"
  by (induction xs) simp_all

lemma summary_shift: "summary project (shift_graph c d g) = summary project g"
  by (simp add: summary_def shift_graph_def labels_shift)

section \<open>Claims\<close>

text \<open>
  C4. As stated the claim fails at the numeric markers. The specification lists the
  check "starts a segment with \<open>00-\<close>" (and so on for the other markers); the code looks
  for the marker anywhere in the path. The path \<open>notes/100-things.md\<close> has no keyword
  and no segment that starts with a marker, so the listed checks give \<open>other\<close>; the code
  finds \<open>00-\<close> inside \<open>100-things\<close> and returns \<open>overview\<close>.
\<close>

theorem determine_doc_type_marker_counterexample:
  "determine_doc_type ''notes/100-things.md'' = ''overview'' \<and>
   first_match listed_rule_matches doc_type_rules ''notes/100-things.md'' = ''other''"
  by (simp add: determine_doc_type_def first_match_def listed_rule_matches_def
      doc_type_rules_def starts_segment_def py_split_def prefix_ci_def same_letter_def
      lower_def lower_char_def upper_letters_def lower_letters_def ascii_upper_def
      ascii_lower_def latin1_upper_def latin1_lower_def)

text \<open>
  C4, amended. The document classifier is total: for every path string it returns one of
  the seven tags, and the tag is that of the first rule of the priority table that
  matches, \<open>other\<close> when none does. A rule matches when its keyword occurs in the path,
  letter case ignored, or when its numeric marker occurs anywhere in the path (not only
  at the start of a segment).
\<close>

theorem determine_doc_type_total:
  "determine_doc_type path \<in> set doc_type_tags \<and>
   determine_doc_type path = first_match rule_matches doc_type_rules path"
proof -
  have k: "contains (lower path) ''overview'' = contains_ci path ''overview''"
    "contains (lower path) ''architecture'' = contains_ci path ''architecture''"
    "contains (lower path) ''decision'' = contains_ci path ''decision''"
    "contains (lower path) ''implementation'' = contains_ci path ''implementation''"
    "contains (lower path) ''operations'' = contains_ci path ''operations''"
    "contains (lower path) ''plan'' = contains_ci path ''plan''"
    by (rule contains_lower_ci,
        simp add: upper_letters_def ascii_upper_def latin1_upper_def)+
  show ?thesis
    unfolding determine_doc_type_def Let_def k
    by (simp add: first_match_def doc_type_rules_def doc_type_tags_def rule_matches_def
        contains_sublist)
qed

theorem determine_doc_type_total_witness:
  "determine_doc_type ''Docs/OVERVIEW.md'' =
     first_match rule_matches doc_type_rules ''Docs/OVERVIEW.md'' \<and>
   determine_doc_type ''Docs/OVERVIEW.md'' = ''overview'' \<and>
   contains_ci ''Docs/OVERVIEW.md'' ''overview'' \<and>
   determine_doc_type ''adr/x02-Plan.md'' = ''decision'' \<and>
   determine_doc_type ''notes/03-misc.md'' = ''other''"
proof (intro conjI)
  show "determine_doc_type ''Docs/OVERVIEW.md'' =
     first_match rule_matches doc_type_rules ''Docs/OVERVIEW.md''"
    by (rule determine_doc_type_total [THEN conjunct2])
  show "determine_doc_type ''Docs/OVERVIEW.md'' = ''overview''"
    by (simp add: determine_doc_type_def lower_def lower_char_def upper_letters_def
        lower_letters_def ascii_upper_def ascii_lower_def latin1_upper_def latin1_lower_def)
  show "contains_ci ''Docs/OVERVIEW.md'' ''overview''"
    by (simp add: prefix_ci_def same_letter_def upper_letters_def lower_letters_def
        ascii_upper_def ascii_lower_def latin1_upper_def latin1_lower_def)
  show "determine_doc_type ''adr/x02-Plan.md'' = ''decision''"
    by (simp add: determine_doc_type_def lower_def lower_char_def upper_letters_def
        lower_letters_def ascii_upper_def ascii_lower_def latin1_upper_def latin1_lower_def)
  show "determine_doc_type ''notes/03-misc.md'' = ''other''"
    by (simp add: determine_doc_type_def lower_def lower_char_def upper_letters_def
        lower_letters_def ascii_upper_def ascii_lower_def latin1_upper_def latin1_lower_def)
qed







text \<open>
  C1. The extraction does not give one canonical token for a component name. The
  patterns are matched with letter case ignored, but the token is the matched text with
  its spaces removed and its letter case kept, so two occurrences of a name that differ
  in letter case contribute two tokens: the body below, with \<open>Trade Executor\<close> and
  \<open>TRADE EXECUTOR\<close>, gives two.
\<close>

theorem extract_components_keeps_letter_case:
  "extract_components ''Trade Executor and TRADE EXECUTOR'' = [''TradeExecutor'', ''TRADEEXECUTOR'']"
  by code_simp

text \<open>
  C8. Concept extraction returns at most 20 entries, without duplicates, taken from the
  set of extracted terms; every term of that set (so every returned entry, whichever 20
  the enumeration of the set puts first) has 3 to 49 characters and is either a span
  between two backticks that does not start with a slash, or a span between two bold
  markers.
\<close>

theorem extract_concepts_bounds:
  "length (extract_concepts content) \<le> 20 \<and>
   distinct (extract_concepts content) \<and>
   set (extract_concepts content) \<subseteq> set (concept_set content) \<and>
   (\<forall>t\<in>set (concept_set content).
      3 \<le> length t \<and> length t \<le> 49 \<and>
      (backtick_span content t \<and> \<not> startswith t ''/'' \<or> bold_span content t))"
proof -
  have d: "distinct (concept_set content)"
    and s: "set (concept_set content) = set (backtick_terms content) \<union> set (bold_terms content)"
    using fold_set_add [of "[]" "backtick_terms content @ bold_terms content"]
    by (simp_all add: concept_set_def)
  have "3 \<le> length t \<and> length t \<le> 49 \<and>
      (backtick_span content t \<and> \<not> startswith t ''/'' \<or> bold_span content t)"
    if "t \<in> set (concept_set content)" for t
  proof -
    from that s consider "t \<in> set (backtick_terms content)" | "t \<in> set (bold_terms content)"
      by auto
    then show ?thesis
    proof cases
      case 1
      then show ?thesis using backticks_from_span [of t content]
        by (auto simp: backtick_terms_def)
    next
      case 2
      then show ?thesis using bolds_from_span [of t content]
        by (auto simp: bold_terms_def)
    qed
  qed
  moreover have "set (extract_concepts content) \<subseteq> set (concept_set content)"
    by (auto simp: extract_concepts_def dest: in_set_takeD)
  moreover have "distinct (extract_concepts content)"
    using d by (simp add: extract_concepts_def)
  moreover have "length (extract_concepts content) \<le> 20"
    by (simp add: extract_concepts_def)
  ultimately show ?thesis by blast
qed

theorem extract_concepts_bounds_witness:
  "length (extract_concepts ''use `run_query` and **Graph Writer**, not `/tmp` or `ab`'') \<le> 20 \<and>
   extract_concepts ''use `run_query` and **Graph Writer**, not `/tmp` or `ab`'' =
     [''run_query'', ''Graph Writer'']"
proof (rule conjI)
  show "length (extract_concepts ''use `run_query` and **Graph Writer**, not `/tmp` or `ab`'') \<le> 20"
    by (rule extract_concepts_bounds [THEN conjunct1])
  show "extract_concepts ''use `run_query` and **Graph Writer**, not `/tmp` or `ab`'' =
     [''run_query'', ''Graph Writer'']"
    by code_simp
qed

text \<open>
  C3. The section patterns do not find the sections that the claim describes. A pattern
  ends a section at the first newline that is followed by \<open>##\<close>, which a level-3 heading
  also gives; it finds the heading text anywhere, also inside the level-3 heading
  \<open>### Context\<close>; and its \<open>\s*\n\<close> takes the empty line of an empty section, after which
  the group runs into the next section. For each of the three texts the field that the
  code computes is set beside the Context section as the claim words it (the text after
  the first line that is a level-2 heading named Context, up to the next line that is a
  level-2 heading), and the first text is also parsed as a decision record.
\<close>

theorem section_field_diverges:
  "section_field ''## Context'' ''## Context\<newline>abc\<newline>### Sub\<newline>def\<newline>## Decision\<newline>x'' = ''abc'' \<and>
   spec_section ''Context'' ''## Context\<newline>abc\<newline>### Sub\<newline>def\<newline>## Decision\<newline>x'' = ''abc\<newline>### Sub\<newline>def'' \<and>
   section_field ''## Context'' ''### Context\<newline>abc'' = ''abc'' \<and>
   spec_section ''Context'' ''### Context\<newline>abc'' = [] \<and>
   section_field ''## Context'' ''## Context\<newline>\<newline>## Decision\<newline>foo'' = ''## Decision\<newline>foo'' \<and>
   spec_section ''Context'' ''## Context\<newline>\<newline>## Decision\<newline>foo'' = [] \<and>
   parse_decision \<lparr>rel_parts = [''adr'', ''1-x.md''],
       read_text = Inr ''## Context\<newline>abc\<newline>### Sub\<newline>def\<newline>## Decision\<newline>x''\<rparr> =
     Inr (Some \<lparr>dec_id = ''1'', dec_title = ''1-x'', dec_status = ''accepted'',
       dec_path = ''adr/1-x.md'', dec_context = ''abc'', dec_decision = ''x'',
       dec_consequences = []\<rparr>)"
  by code_simp

text \<open>
  C7. A single bad file can abort the scan. The handler of the loop prints the warning
  with the path of the file, and nothing catches what that \<open>print\<close> raises. In the corpus
  below the first file cannot be decoded and its name has a character that the standard
  output cannot encode: the handler's \<open>print\<close> raises \<open>UnicodeEncodeError\<close>, the scan ends
  with that exception, and the well-formed second file is never parsed. With a standard
  output that takes the line, the same corpus gives the warning and the Document of the
  second file.
\<close>

theorem scan_aborts_on_unprintable_warning:
  "scan ascii_stdout [''srv'', ''docs''] [sample_bad_file, sample_good_file] =
     Inl (UnicodeEncodeError ''ordinal not in range(128)'') \<and>
   scan plain_stdout [''srv'', ''docs''] [sample_bad_file, sample_good_file] =
     Inr \<lparr>docs = [\<lparr>doc_path = ''guide.md'', doc_title = ''Hi'', doc_type = ''other'',
                  doc_headings = [''Hi''], doc_content = ''# Hi'', doc_frontmatter = [],
                  doc_references = [], doc_components = [], doc_concepts = []\<rparr>],
        decisions = [],
        printed = [''  Warning: Failed to parse /srv/docs/'' @ [CHR 0xFF] @
                   ''.md: invalid start byte'']\<rparr>"
  by code_simp



text \<open>
  C2. On a well-formed store, running the write sequence a second time, with the same
  project label, Documents and Decisions, leaves as many nodes and as many relationships
  as running it once, the same summary of label lists and counts, and the same graph up
  to the identities of the nodes of the project.
\<close>

theorem create_graph_idempotent:
  assumes "wf_graph g"
  shows "length (nodes (create_graph (create_graph g project ds decs) project ds decs)) =
           length (nodes (create_graph g project ds decs)) \<and>
         length (edges (create_graph (create_graph g project ds decs) project ds decs)) =
           length (edges (create_graph g project ds decs)) \<and>
         summary project (create_graph (create_graph g project ds decs) project ds decs) =
           summary project (create_graph g project ds decs) \<and>
         (\<exists>c d. create_graph (create_graph g project ds decs) project ds decs =
                  shift_graph c d (create_graph g project ds decs))"
proof -
  from create_graph_twice [OF assms, of project ds decs] obtain c d where
    eq: "create_graph (create_graph g project ds decs) project ds decs =
         shift_graph c d (create_graph g project ds decs)" by blast
  have "length (nodes (shift_graph c d (create_graph g project ds decs))) =
      length (nodes (create_graph g project ds decs))"
    "length (edges (shift_graph c d (create_graph g project ds decs))) =
      length (edges (create_graph g project ds decs))"
    by (simp_all add: shift_graph_def)
  with eq summary_shift [of project c d "create_graph g project ds decs"] show ?thesis
    by (metis (no_types))
qed

theorem create_graph_idempotent_witness:
  "wf_graph sample_store \<and>
   length (nodes (create_graph sample_store ''P'' [sample_a, sample_b] [])) = 4 \<and>
   length (edges (create_graph sample_store ''P'' [sample_a, sample_b] [])) = 2 \<and>
   length (nodes (create_graph (create_graph sample_store ''P'' [sample_a, sample_b] [])
                    ''P'' [sample_a, sample_b] [])) = 4 \<and>
   length (edges (create_graph (create_graph sample_store ''P'' [sample_a, sample_b] [])
                    ''P'' [sample_a, sample_b] [])) = 2"
proof -
  have w: "wf_graph sample_store" by code_simp
  have n: "length (nodes (create_graph sample_store ''P'' [sample_a, sample_b] [])) = 4"
    by code_simp
  have e: "length (edges (create_graph sample_store ''P'' [sample_a, sample_b] [])) = 2"
    by code_simp
  from create_graph_idempotent [OF w, of "''P''" "[sample_a, sample_b]" "[]"] w n e
  show ?thesis by simp
qed

text \<open>
  C9. After the write sequence on a well-formed store: when Document A has a reference
  that equals the path of Document B, the reference statement binds at least one node
  for each of the two paths and exactly one \<open>REFERENCES\<close> relationship goes from every
  node bound for A to every node bound for B (however often the reference is repeated);
  when the paths of the Documents are pairwise different and the project label is not
  \<open>Document\<close>, exactly one node is bound for A and one for B. A reference that equals the
  path of no Document (nor of a Decision, when the project label is \<open>Document\<close>) binds no
  node, and its statement leaves every graph with these nodes as it is.
\<close>

theorem reference_relationships:
  assumes "wf_graph g" and G: "G = create_graph g project ds decs"
  shows "(A \<in> set ds \<and> B \<in> set ds \<and> doc_path B \<in> set (doc_references A) \<longrightarrow>
            document_nodes project (doc_path A) G \<noteq> [] \<and>
            document_nodes project (doc_path B) G \<noteq> [] \<and>
            (\<forall>a\<in>set (document_nodes project (doc_path A) G).
               \<forall>b\<in>set (document_nodes project (doc_path B) G).
                 count_list (edges G) (a, ''REFERENCES'', b) = 1) \<and>
            (project \<noteq> ''Document'' \<and> distinct (map doc_path ds) \<longrightarrow>
               length (document_nodes project (doc_path A) G) = 1 \<and>
               length (document_nodes project (doc_path B) G) = 1)) \<and>
         (ref \<notin> doc_path ` set ds \<and> (project = ''Document'' \<longrightarrow> ref \<notin> dec_path ` set decs) \<longrightarrow>
            document_nodes project ref G = [] \<and>
            (\<forall>g'. nodes g' = nodes G \<longrightarrow> reference_query project from_path ref g' = g'))"
proof -
  let ?g3 = "fold (decision_query project) decs
        (fold (write_document project) ds (detach_delete [project] g))"
  have Gf: "G = fold (write_references project) ds ?g3"
    by (simp add: G create_graph_def clear_query_def Let_def)
  then have nodes: "nodes G = nodes ?g3" by (simp add: nodes_fold_write_references)
  have len: "length (document_nodes project p G) =
      count_list (map (\<lambda>d. Str (doc_path d)) ds @
        (if project = ''Document'' then map (\<lambda>d. Str (dec_path d)) decs else [])) (Str p)" for p
    unfolding document_nodes_def length_match_nodes_path G target_paths_create_graph ..
  have ex: "document_nodes project (doc_path D) G \<noteq> []" if "D \<in> set ds" for D
  proof -
    from that have "Str (doc_path D) \<in> set (map (\<lambda>d. Str (doc_path d)) ds @
        (if project = ''Document'' then map (\<lambda>d. Str (dec_path d)) decs else []))" by auto
    from count_list_in [OF this] len [of "doc_path D"] show ?thesis by auto
  qed
  have one: "length (document_nodes project (doc_path D) G) = 1"
    if "D \<in> set ds" "project \<noteq> ''Document''" "distinct (map doc_path ds)" for D
  proof -
    from that(3) have "distinct (map (\<lambda>d. Str (doc_path d)) ds)"
      by (simp add: distinct_map inj_on_def comp_def)
    moreover from that(1) have "Str (doc_path D) \<in> set (map (\<lambda>d. Str (doc_path d)) ds)" by auto
    ultimately have "count_list (map (\<lambda>d. Str (doc_path d)) ds) (Str (doc_path D)) = 1"
      by (rule count_list_distinct)
    with that(2) len [of "doc_path D"] show ?thesis by simp
  qed
  have cnt: "count_list (edges G) (a, ''REFERENCES'', b) = 1"
    if AB: "A \<in> set ds" "doc_path B \<in> set (doc_references A)"
      and a: "a \<in> set (document_nodes project (doc_path A) G)"
      and b: "b \<in> set (document_nodes project (doc_path B) G)" for a b
  proof -
    from a b have a3: "a \<in> set (match_nodes [project, ''Document''] [(''path'', Str (doc_path A))] ?g3)"
      and b3: "b \<in> set (match_nodes [project, ''Document''] [(''path'', Str (doc_path B))] ?g3)"
      by (simp_all add: document_nodes_def match_nodes_nodes [OF nodes])
    from pre_refs_before_references [OF assms(1)] a3
    have "count_list (edges ?g3) (a, ''REFERENCES'', b) = 0" by (rule pre_refs_no_reference)
    then have "at_most_once (a, ''REFERENCES'', b) ?g3" by (simp add: at_most_once_def)
    then have "at_most_once (a, ''REFERENCES'', b) G"
      unfolding Gf by (rule once_fold_write_references)
    moreover from fold_write_references_present [OF AB a3 b3]
    have "(a, ''REFERENCES'', b) \<in> set (edges G)" by (simp add: Gf)
    then have "1 \<le> count_list (edges G) (a, ''REFERENCES'', b)" by (rule count_list_in)
    ultimately show ?thesis by (simp add: at_most_once_def)
  qed
  have dangling: "document_nodes project ref G = [] \<and>
      (\<forall>g'. nodes g' = nodes G \<longrightarrow> reference_query project from_path ref g' = g')"
    if "ref \<notin> doc_path ` set ds" "project = ''Document'' \<longrightarrow> ref \<notin> dec_path ` set decs"
  proof -
    from that have "Str ref \<notin> set (map (\<lambda>d. Str (doc_path d)) ds @
        (if project = ''Document'' then map (\<lambda>d. Str (dec_path d)) decs else []))" by auto
    from count_list_notin [OF this] len [of ref] have e: "document_nodes project ref G = []" by simp
    have "reference_query project from_path ref g' = g'" if "nodes g' = nodes G" for g'
      using e match_nodes_nodes [OF that, of "[project, ''Document'']" "[(''path'', Str ref)]"]
      by (simp add: reference_query_def document_nodes_def Let_def concat_map_Nil)
    with e show ?thesis by blast
  qed
  from ex one cnt dangling show ?thesis by blast
qed

theorem reference_relationships_witness:
  "wf_graph sample_store \<and>
   document_nodes ''P'' ''a.md'' (create_graph sample_store ''P'' [sample_a, sample_b] []) = [2] \<and>
   document_nodes ''P'' ''b.md'' (create_graph sample_store ''P'' [sample_a, sample_b] []) = [4] \<and>
   count_list (edges (create_graph sample_store ''P'' [sample_a, sample_b] []))
     (2, ''REFERENCES'', 4) = 1 \<and>
   document_nodes ''P'' ''missing.md'' (create_graph sample_store ''P'' [sample_a, sample_b] []) = []"
proof -
  let ?G = "create_graph sample_store ''P'' [sample_a, sample_b] []"
  have w: "wf_graph sample_store" by code_simp
  have a: "document_nodes ''P'' ''a.md'' ?G = [2]" by code_simp
  have b: "document_nodes ''P'' ''b.md'' ?G = [4]" by code_simp
  note t = reference_relationships [OF w refl, of sample_a "[sample_a, sample_b]" sample_b
      "''P''" "[]" "''missing.md''" "''a.md''"]
  have h: "sample_a \<in> set [sample_a, sample_b] \<and> sample_b \<in> set [sample_a, sample_b] \<and>
      doc_path sample_b \<in> set (doc_references sample_a)"
    by (simp add: sample_a_def sample_b_def)
  have pa: "doc_path sample_a = ''a.md''" and pb: "doc_path sample_b = ''b.md''"
    by (simp_all add: sample_a_def sample_b_def)
  from t h have "\<forall>x\<in>set (document_nodes ''P'' (doc_path sample_a) ?G).
      \<forall>y\<in>set (document_nodes ''P'' (doc_path sample_b) ?G).
        count_list (edges ?G) (x, ''REFERENCES'', y) = 1" by blast
  with a b pa pb have c: "count_list (edges ?G) (2, ''REFERENCES'', 4) = 1" by simp
  have "''missing.md'' \<notin> doc_path ` set [sample_a, sample_b]"
    by (simp add: sample_a_def sample_b_def)
  with t have m: "document_nodes ''P'' ''missing.md'' ?G = []" by simp
  from w a b c m show ?thesis by simp
qed

end
